theory Spec2Isabelle
  imports Main "HOL-Library.AList"
begin

section \<open>Values, classes and responses\<close>

text \<open>
  A class is its name together with the class it extends, so the prototype chain of a
  class is a finite list by construction. Two classes are the same class when they
  agree on the name and on the whole chain.
\<close>

datatype cls = Cls string "cls option"

fun ancestors :: "cls \<Rightarrow> cls list" where
  "ancestors (Cls n None) = []"
| "ancestors (Cls n (Some p)) = p # ancestors p"

text \<open>
  The values that reach the gate as the current user and as subject arguments:
  the primitives, an instance of a class (\<open>VObj\<close>), a class reference
  (\<open>VClass\<close>) and the prototype object of a class (\<open>VProto\<close>, what
  \<open>C.prototype\<close> evaluates to).
\<close>

datatype val =
    VUndefined
  | VNull
  | VBool bool
  | VNum int
  | VStr string
  | VObj cls
  | VClass cls
  | VProto cls

fun truthy :: "val \<Rightarrow> bool" where
  "truthy VUndefined = False"
| "truthy VNull = False"
| "truthy (VBool b) = b"
| "truthy (VNum n) = (n \<noteq> 0)"
| "truthy (VStr s) = (s \<noteq> [])"
| "truthy (VObj c) = True"
| "truthy (VClass c) = True"
| "truthy (VProto c) = True"

fun typeof :: "val \<Rightarrow> string" where
  "typeof VUndefined = ''undefined''"
| "typeof VNull = ''object''"
| "typeof (VBool b) = ''boolean''"
| "typeof (VNum n) = ''number''"
| "typeof (VStr s) = ''string''"
| "typeof (VObj c) = ''object''"
| "typeof (VClass c) = ''function''"
| "typeof (VProto c) = ''object''"

text \<open>The class \<open>GateResponse\<close>: \<open>allowed\<close>, \<open>message\<close>, \<open>code\<close> and the
  status field set by \<open>withStatus\<close>.\<close>

record GateResponse =
  allowed :: bool
  message :: "string option"
  code :: val
  status :: "int option"

text \<open>
  What the engine can raise: a \<open>TypeError\<close> of the runtime (a property read on
  \<open>null\<close> or \<open>undefined\<close>), the two denial exceptions of
  \<open>GateResponse.authorize\<close>, each carrying the response, and whatever a callback
  throws on its own.
\<close>

datatype exn =
    TypeError
  | HttpException GateResponse int
  | ForbiddenException GateResponse
  | Thrown string

definition denied :: "GateResponse \<Rightarrow> bool" where
  "denied r = (\<not> allowed r)"

definition allow :: "string option \<Rightarrow> val \<Rightarrow> GateResponse" where
  "allow msg c = \<lparr>allowed = True, message = msg, code = c, status = None\<rparr>"

definition deny :: "string option \<Rightarrow> val \<Rightarrow> GateResponse" where
  "deny msg c = \<lparr>allowed = False, message = msg, code = c, status = None\<rparr>"

definition withStatus :: "int option \<Rightarrow> GateResponse \<Rightarrow> GateResponse" where
  "withStatus st r = r\<lparr>status := st\<rparr>"

definition asNotFound :: "GateResponse \<Rightarrow> GateResponse" where
  "asNotFound r = withStatus (Some 404) r"

definition denyWithStatus :: "int \<Rightarrow> string option \<Rightarrow> val \<Rightarrow> GateResponse" where
  "denyWithStatus st msg c = withStatus (Some st) (deny msg c)"

definition denyAsNotFound :: "string option \<Rightarrow> val \<Rightarrow> GateResponse" where
  "denyAsNotFound msg c = denyWithStatus 404 msg c"

text \<open>
  \<open>GateResponse.authorize\<close>: a denied response throws; the test
  \<open>this._status ? ... : ...\<close> is a truthiness test, so a status of \<open>null\<close> and a
  status of \<open>0\<close> both take the \<open>ForbiddenException\<close> branch.
\<close>

definition response_authorize :: "GateResponse \<Rightarrow> exn + GateResponse" where
  "response_authorize r =
     (if denied r then
        (case status r of
           None \<Rightarrow> Inl (ForbiddenException r)
         | Some st \<Rightarrow> if st \<noteq> 0 then Inl (HttpException r st) else Inl (ForbiddenException r))
      else Inr r)"

text \<open>
  The response and the HTTP status a denial exception carries. A
  \<open>ForbiddenException\<close> is the framework's exception with status 403 (the README:
  "authorize() throws 403 by default or the provided status when denied").
\<close>

fun getResponse :: "exn \<Rightarrow> GateResponse option" where
  "getResponse (HttpException r st) = Some r"
| "getResponse (ForbiddenException r) = Some r"
| "getResponse TypeError = None"
| "getResponse (Thrown m) = None"

fun getStatus :: "exn \<Rightarrow> int option" where
  "getStatus (HttpException r st) = Some st"
| "getStatus (ForbiddenException r) = Some 403"
| "getStatus TypeError = None"
| "getStatus (Thrown m) = None"

fun is_denial :: "exn \<Rightarrow> bool" where
  "is_denial (HttpException r st) = True"
| "is_denial (ForbiddenException r) = True"
| "is_denial TypeError = False"
| "is_denial (Thrown m) = False"

text \<open>The type \<open>Result\<close> of the callbacks: \<open>boolean | null | GateResponse | undefined\<close>.\<close>

datatype outcome =
    OUndefined
  | ONull
  | OBool bool
  | OResponse GateResponse

fun nullish :: "outcome \<Rightarrow> bool" where
  "nullish OUndefined = True"
| "nullish ONull = True"
| "nullish (OBool b) = False"
| "nullish (OResponse r) = False"

section \<open>Ability names and method names\<close>

text \<open>
  A string is the list of its code units, of a type \<open>'c\<close>. What
  \<open>formatAbilityToMethod\<close> takes from the runtime is a parameter: the code units of
  the hyphen and of the underscore, the class \<open>\s\<close> of the regular expressions, and
  the Unicode case mappings \<open>toLowerCase\<close> and \<open>toUpperCase\<close>, which map a string
  to a string (\<open>toUpperCase\<close> can lengthen it). The one fact about them that the
  derivation rests on is that \<open>toUpperCase\<close> of the empty string is the empty
  string: \<open>word.charAt(0).toUpperCase()\<close> is also evaluated on the empty pieces
  that \<open>split\<close> returns.
\<close>

record 'c runtime =
  hyphen :: 'c
  underscore :: 'c
  whitespace :: "'c \<Rightarrow> bool"
  toLowerCase :: "'c list \<Rightarrow> 'c list"
  toUpperCase :: "'c list \<Rightarrow> 'c list"

text \<open>The character class \<open>[-_\s]\<close>.\<close>

definition separator :: "'c runtime \<Rightarrow> 'c \<Rightarrow> bool" where
  "separator rt c = (c = hyphen rt \<or> c = underscore rt \<or> whitespace rt c)"

text \<open>
  \<open>s.split(/[-_\s]+/)\<close>, for a class \<open>p\<close>: every maximal run of separators ends
  one piece and starts the next, so a leading or a trailing run gives an empty piece,
  and a string with no separator is one piece.
\<close>

function split_sep :: "('c \<Rightarrow> bool) \<Rightarrow> 'c list \<Rightarrow> 'c list list" where
  "split_sep p [] = [[]]"
| "split_sep p (c # cs) =
     (if p c then [] # split_sep p (dropWhile p cs)
      else (case split_sep p cs of
              [] \<Rightarrow> [[c]]
            | w # ws \<Rightarrow> (c # w) # ws))"
  by pat_completeness auto
termination
  by (relation "measure (\<lambda>(p, s). length s)") (auto simp: length_dropWhile_le less_Suc_eq_le)

definition charAt :: "'c list \<Rightarrow> nat \<Rightarrow> 'c list" where
  "charAt s i = (if i < length s then [s ! i] else [])"

definition slice :: "'c list \<Rightarrow> nat \<Rightarrow> 'c list" where
  "slice s i = drop i s"

definition join :: "'c list list \<Rightarrow> 'c list" where
  "join ws = concat ws"

definition str_includes :: "'c list \<Rightarrow> 'c \<Rightarrow> bool" where
  "str_includes s c = (c \<in> set s)"

text \<open>\<open>ws.map((word, index) => f(word, index))\<close>.\<close>

definition map_index :: "('a \<Rightarrow> nat \<Rightarrow> 'b) \<Rightarrow> 'a list \<Rightarrow> 'b list" where
  "map_index f ws = map (\<lambda>(i, w). f w i) (enumerate 0 ws)"

definition formatAbilityToMethod_rt :: "'c runtime \<Rightarrow> 'c list \<Rightarrow> 'c list" where
  "formatAbilityToMethod_rt rt ability =
     (if str_includes ability (hyphen rt) then
        join (map_index
               (\<lambda>word index. if index = 0 then word
                              else toUpperCase rt (charAt word 0) @ slice word 1)
               (split_sep (separator rt) (toLowerCase rt ability)))
      else ability)"

subsection \<open>The runtime on ASCII names\<close>

text \<open>
  The ability names of the registrations below are ASCII strings. On these the
  runtime is: \<open>toLowerCase\<close> and \<open>toUpperCase\<close> act on the letters A-Z and a-z,
  and \<open>\s\<close> is tab, line feed, vertical tab, form feed, carriage return and space.
\<close>

definition lower_char :: "char \<Rightarrow> char" where
  "lower_char c = (let n = (of_char c :: nat) in if 65 \<le> n \<and> n \<le> 90 then char_of (n + 32) else c)"

definition upper_char :: "char \<Rightarrow> char" where
  "upper_char c = (let n = (of_char c :: nat) in if 97 \<le> n \<and> n \<le> 122 then char_of (n - 32) else c)"

definition ascii_whitespace :: "char \<Rightarrow> bool" where
  "ascii_whitespace c = ((of_char c :: nat) \<in> {9, 10, 11, 12, 13, 32})"

definition ascii :: "char runtime" where
  "ascii = \<lparr>hyphen = CHR ''-'', underscore = CHR ''_'', whitespace = ascii_whitespace,
            toLowerCase = map lower_char, toUpperCase = map upper_char\<rparr>"

definition formatAbilityToMethod :: "string \<Rightarrow> string" where
  "formatAbilityToMethod ability = formatAbilityToMethod_rt ascii ability"

subsection \<open>The runtime on code units below 256\<close>

text \<open>
  Strings of UTF-16 code units as natural numbers. \<open>js_whitespace\<close> is the whole
  class \<open>\s\<close>. The two case tables are those of the runtime on the code units below
  256: \<open>toLowerCase\<close> maps A-Z and the capital letters U+00C0 to U+00DE (U+00D7 is
  the multiplication sign) 32 places up; \<open>toUpperCase\<close> maps a-z and the small
  letters U+00E0 to U+00FE (U+00F7 is the division sign) 32 places down, the micro
  sign U+00B5 to U+039C, the sharp s U+00DF to \<open>SS\<close> and U+00FF to U+0178.
\<close>

definition js_whitespace :: "nat \<Rightarrow> bool" where
  "js_whitespace u =
     (u \<in> {9, 10, 11, 12, 13, 32, 160, 5760, 8232, 8233, 8239, 8287, 12288, 65279} \<or>
      (8192 \<le> u \<and> u \<le> 8202))"

definition latin1_lower :: "nat \<Rightarrow> nat" where
  "latin1_lower u =
     (if (65 \<le> u \<and> u \<le> 90) \<or> (192 \<le> u \<and> u \<le> 222 \<and> u \<noteq> 215) then u + 32 else u)"

definition latin1_upper :: "nat \<Rightarrow> nat list" where
  "latin1_upper u =
     (if u = 181 then [924]
      else if u = 223 then [83, 83]
      else if u = 255 then [376]
      else if (97 \<le> u \<and> u \<le> 122) \<or> (224 \<le> u \<and> u \<le> 254 \<and> u \<noteq> 247) then [u - 32]
      else [u])"

definition latin1 :: "nat runtime" where
  "latin1 = \<lparr>hyphen = 45, underscore = 95, whitespace = js_whitespace,
             toLowerCase = map latin1_lower,
             toUpperCase = (\<lambda>s. concat (map latin1_upper s))\<rparr>"

subsection \<open>The derivation rule\<close>

text \<open>
  The rule in the words of the specification: lower-case the name, split it on runs
  of hyphen, underscore and whitespace, keep the first word and capitalise the first
  character of every later word. A word is a longest run of characters that are not
  delimiters; a run of delimiters separates two words, of which the first or the last
  is empty when the name starts or ends with a delimiter.
\<close>

definition delimiter :: "'c runtime \<Rightarrow> 'c \<Rightarrow> bool" where
  "delimiter rt c = (whitespace rt c \<or> c = underscore rt \<or> c = hyphen rt)"

function pieces :: "('c \<Rightarrow> bool) \<Rightarrow> 'c list \<Rightarrow> 'c list list" where
  "pieces d s =
     (let word = takeWhile (\<lambda>c. \<not> d c) s;
          rest = dropWhile (\<lambda>c. \<not> d c) s
      in if rest = [] then [word] else word # pieces d (dropWhile d rest))"
  by pat_completeness auto
termination
proof (relation "measure (\<lambda>(d, s). length s)")
  show "wf (measure (\<lambda>(d, s). length s))"
    by simp
next
  fix d :: "'c \<Rightarrow> bool" and s word rest
  assume r: "rest = dropWhile (\<lambda>c. \<not> d c) s" and ne: "rest \<noteq> []"
  from r ne have "d (hd rest)"
    using hd_dropWhile [of "\<lambda>c. \<not> d c" s] by simp
  with ne have "length (dropWhile d rest) < length rest"
    by (cases rest) (simp_all add: length_dropWhile_le less_Suc_eq_le)
  also have "length rest \<le> length s"
    using r by (simp add: length_dropWhile_le)
  finally show "((d, dropWhile d rest), (d, s)) \<in> measure (\<lambda>(d, s). length s)"
    by simp
qed

declare pieces.simps [simp del]

fun capitalize :: "'c runtime \<Rightarrow> 'c list \<Rightarrow> 'c list" where
  "capitalize rt [] = []"
| "capitalize rt (c # cs) = toUpperCase rt [c] @ cs"

fun camel_join :: "'c runtime \<Rightarrow> 'c list list \<Rightarrow> 'c list" where
  "camel_join rt [] = []"
| "camel_join rt (w # ws) = w @ concat (map (capitalize rt) ws)"

definition camel_spec :: "'c runtime \<Rightarrow> 'c list \<Rightarrow> 'c list" where
  "camel_spec rt ability = camel_join rt (pieces (delimiter rt) (toLowerCase rt ability))"

text \<open>
  The same rule read off character by character: a delimiter is dropped, and a
  character that is not a delimiter is capitalised exactly when the character before
  it is a delimiter.
\<close>

fun camel_scan :: "'c runtime \<Rightarrow> bool \<Rightarrow> 'c list \<Rightarrow> 'c list" where
  "camel_scan rt after_delimiter [] = []"
| "camel_scan rt after_delimiter (c # cs) =
     (if delimiter rt c then camel_scan rt True cs
      else (if after_delimiter then toUpperCase rt [c] else [c]) @ camel_scan rt False cs)"

section \<open>Policy lookup\<close>

text \<open>
  \<open>x instanceof C\<close> walks the prototype chain of \<open>x\<close>: an instance of \<open>D\<close>
  starts at the prototype of \<open>D\<close>, the prototype object of \<open>D\<close> starts at the
  prototype of the class \<open>D\<close> extends, and a primitive is an instance of nothing.
\<close>

fun instanceof :: "val \<Rightarrow> cls \<Rightarrow> bool" where
  "instanceof (VObj d) c = (c \<in> set (d # ancestors d))"
| "instanceof (VProto d) c = (c \<in> set (ancestors d))"
| "instanceof v c = False"

text \<open>The property reads \<open>obj.constructor\<close> and \<open>obj.prototype\<close>; both throw on
  \<open>null\<close> and \<open>undefined\<close>.\<close>

fun get_constructor :: "val \<Rightarrow> exn + val" where
  "get_constructor VUndefined = Inl TypeError"
| "get_constructor VNull = Inl TypeError"
| "get_constructor (VObj c) = Inr (VClass c)"
| "get_constructor (VProto c) = Inr (VClass c)"
| "get_constructor v = Inr VUndefined"

fun get_prototype :: "val \<Rightarrow> exn + val" where
  "get_prototype VUndefined = Inl TypeError"
| "get_prototype VNull = Inl TypeError"
| "get_prototype (VClass c) = Inr (VProto c)"
| "get_prototype v = Inr VUndefined"

text \<open>
  The registry \<open>policies\<close> is a \<open>Map\<close> keyed by class: an association list in
  insertion order with \<open>AList.update\<close> as \<open>set\<close>. \<open>policies_get\<close> is
  \<open>has\<close> and \<open>get\<close> in one, on the key a value denotes.
\<close>

fun policies_get :: "(cls \<times> 'p) list \<Rightarrow> val \<Rightarrow> 'p option" where
  "policies_get ps (VClass c) = map_of ps c"
| "policies_get ps v = None"

fun policies_scan :: "(cls \<times> 'p) list \<Rightarrow> val \<Rightarrow> 'p option" where
  "policies_scan [] proto = None"
| "policies_scan ((target, policy) # ps) proto =
     (if instanceof proto target then Some policy else policies_scan ps proto)"

definition getPolicyFor :: "(cls \<times> 'p) list \<Rightarrow> val \<Rightarrow> exn + 'p option" where
  "getPolicyFor ps obj =
     (case (if typeof obj = ''object'' then get_constructor obj else Inr obj) of
        Inl e \<Rightarrow> Inl e
      | Inr target \<Rightarrow>
          (case policies_get ps target of
             Some policy \<Rightarrow> Inr (Some policy)
           | None \<Rightarrow>
               (case (if typeof obj = ''object'' then Inr obj else get_prototype obj) of
                  Inl e \<Rightarrow> Inl e
                | Inr proto \<Rightarrow> Inr (policies_scan ps proto))))"

text \<open>
  The lookup in the words of the specification: the subject's type, then the exact
  match, then the first registered pair whose type is an ancestor of the subject's
  type, then none.
\<close>

definition policyFor_spec :: "(cls \<times> 'p) list \<Rightarrow> cls \<Rightarrow> 'p option" where
  "policyFor_spec ps c =
     (case map_of ps c of
        Some policy \<Rightarrow> Some policy
      | None \<Rightarrow> map_option snd (find (\<lambda>(t, policy). t \<in> set (ancestors c)) ps))"

section \<open>The gate\<close>

text \<open>
  A check runs over a store with two parts: the \<open>args\<close> array the caller passed,
  which the engine and the hooks share by reference, and the \<open>world\<close>, everything
  else a callback can read or write. Before- and after-hooks are handed the array
  itself, so they act on the whole store; ability callbacks and policy methods are
  handed the elements (\<open>...args\<close>), so they act on the world. Every callback either
  returns an outcome or throws. The registrations of the gate do not change while a
  check runs.
\<close>

record 'w st =
  args :: "val list"
  world :: 'w

type_synonym ('w, 'a) proc = "'w st \<Rightarrow> (exn + 'a) \<times> 'w st"

type_synonym 'w AbilityCallback = "val \<Rightarrow> val list \<Rightarrow> 'w \<Rightarrow> (exn + outcome) \<times> 'w"

type_synonym 'w BeforeCallback = "val \<Rightarrow> string \<Rightarrow> ('w, outcome) proc"

type_synonym 'w AfterCallback = "val \<Rightarrow> string \<Rightarrow> outcome \<Rightarrow> ('w, outcome) proc"

datatype 'w property = Method "'w AbilityCallback" | Field val

type_synonym 'w PolicyMap = "string \<Rightarrow> 'w property option"

record 'w GateService =
  policies :: "(cls \<times> 'w PolicyMap) list"
  abilities :: "string \<Rightarrow> 'w AbilityCallback option"
  beforeCallbacks :: "'w BeforeCallback list"
  afterCallbacks :: "'w AfterCallback list"

datatype abilities_arg = One string | Many "string list"

fun to_array :: "abilities_arg \<Rightarrow> string list" where
  "to_array (One a) = [a]"
| "to_array (Many as) = as"

text \<open>\<open>await m\<close> and then the rest: a rejection or a throw ends the computation.\<close>

definition await :: "('w, 'a) proc \<Rightarrow> ('a \<Rightarrow> ('w, 'b) proc) \<Rightarrow> ('w, 'b) proc" where
  "await m f s = (case m s of (Inl e, s') \<Rightarrow> (Inl e, s') | (Inr x, s') \<Rightarrow> f x s')"

definition return :: "'a \<Rightarrow> ('w, 'a) proc" where
  "return x s = (Inr x, s)"

text \<open>A call \<open>f(user, ...xs)\<close> of an ability callback or a policy method.\<close>

definition call :: "'w AbilityCallback \<Rightarrow> val \<Rightarrow> val list \<Rightarrow> ('w, outcome) proc" where
  "call f user xs s = (case f user xs (world s) of (r, w') \<Rightarrow> (r, s\<lparr>world := w'\<rparr>))"

text \<open>\<open>args[0]\<close> and \<open>args.shift()\<close>.\<close>

fun arg0 :: "val list \<Rightarrow> val" where
  "arg0 [] = VUndefined"
| "arg0 (x # xs) = x"

definition shift :: "'w st \<Rightarrow> 'w st" where
  "shift s = s\<lparr>args := tl (args s)\<rparr>"

subsection \<open>Registration\<close>

definition empty_gate :: "'w GateService" where
  "empty_gate = \<lparr>policies = [], abilities = (\<lambda>a. None), beforeCallbacks = [], afterCallbacks = []\<rparr>"

definition onApplicationBootstrap ::
  "(cls \<times> 'w PolicyMap) list \<Rightarrow> 'w GateService \<Rightarrow> 'w GateService" where
  "onApplicationBootstrap providers g =
     g\<lparr>policies := fold (\<lambda>(meta, inst) ps. AList.update meta inst ps) providers (policies g)\<rparr>"

definition has :: "'w GateService \<Rightarrow> abilities_arg \<Rightarrow> bool" where
  "has g as = list_all (\<lambda>ability. abilities g ability \<noteq> None) (to_array as)"

definition define_ability :: "string \<Rightarrow> 'w AbilityCallback \<Rightarrow> 'w GateService \<Rightarrow> 'w GateService" where
  "define_ability ability callback g = g\<lparr>abilities := (abilities g)(ability \<mapsto> callback)\<rparr>"

definition before :: "'w BeforeCallback \<Rightarrow> 'w GateService \<Rightarrow> 'w GateService" where
  "before callback g = g\<lparr>beforeCallbacks := beforeCallbacks g @ [callback]\<rparr>"

definition after :: "'w AfterCallback \<Rightarrow> 'w GateService \<Rightarrow> 'w GateService" where
  "after callback g = g\<lparr>afterCallbacks := afterCallbacks g @ [callback]\<rparr>"

subsection \<open>The ambient user\<close>

text \<open>
  The store of the \<open>AsyncLocalStorage\<close> is a parameter of every query: the value
  \<open>getStore()\<close> returns where the query runs, \<open>undefined\<close> outside every scope.
\<close>

definition resolveUser :: "val \<Rightarrow> val" where
  "resolveUser ctx = ctx"

definition runWithUser :: "val \<Rightarrow> (val \<Rightarrow> 'r) \<Rightarrow> val \<Rightarrow> 'r" where
  "runWithUser user callback ctx = callback user"

subsection \<open>Hooks\<close>

primrec before_loop :: "'w BeforeCallback list \<Rightarrow> val \<Rightarrow> string \<Rightarrow> ('w, outcome) proc" where
  "before_loop [] user ability = return ONull"
| "before_loop (b # bs) user ability =
     await (b user ability)
       (\<lambda>result. if result \<noteq> ONull \<and> result \<noteq> OUndefined then return result
                  else before_loop bs user ability)"

definition callBeforeCallbacks :: "'w GateService \<Rightarrow> val \<Rightarrow> string \<Rightarrow> ('w, outcome) proc" where
  "callBeforeCallbacks g user ability = before_loop (beforeCallbacks g) user ability"

text \<open>\<open>result ??= await after(user, ability, result, args)\<close>: the right-hand side is
  evaluated only when \<open>result\<close> is \<open>null\<close> or \<open>undefined\<close>.\<close>

primrec after_loop :: "'w AfterCallback list \<Rightarrow> val \<Rightarrow> string \<Rightarrow> outcome \<Rightarrow> ('w, outcome) proc" where
  "after_loop [] user ability result = return result"
| "after_loop (h # hs) user ability result =
     (if nullish result
      then await (h user ability result) (\<lambda>result'. after_loop hs user ability result')
      else after_loop hs user ability result)"

definition callAfterCallbacks ::
  "'w GateService \<Rightarrow> val \<Rightarrow> string \<Rightarrow> outcome \<Rightarrow> ('w, outcome) proc" where
  "callAfterCallbacks g user ability result = after_loop (afterCallbacks g) user ability result"

subsection \<open>Policies\<close>

definition callPolicyBefore :: "'w PolicyMap \<Rightarrow> val \<Rightarrow> string \<Rightarrow> ('w, outcome) proc" where
  "callPolicyBefore policy user ability s =
     (case policy ''before'' of
        Some (Method bf) \<Rightarrow> call bf user (VStr ability # args s) s
      | _ \<Rightarrow> (Inr OUndefined, s))"

definition callPolicyMethod :: "'w PolicyMap \<Rightarrow> string \<Rightarrow> val \<Rightarrow> ('w, outcome) proc" where
  "callPolicyMethod policy method user s =
     (let s1 = (if typeof (arg0 (args s)) = ''function'' then shift s else s)
      in case policy method of
           Some (Method m) \<Rightarrow> call m user (args s1) s1
         | _ \<Rightarrow> (Inl TypeError, s1))"

definition resolvePolicyCallback ::
  "val \<Rightarrow> string \<Rightarrow> 'w PolicyMap \<Rightarrow> ('w, outcome) proc option" where
  "resolvePolicyCallback user ability policy =
     (let method = formatAbilityToMethod ability
      in case policy method of
           Some (Method m) \<Rightarrow>
             Some (await (callPolicyBefore policy user ability)
                     (\<lambda>r. if nullish r then callPolicyMethod policy method user else return r))
         | _ \<Rightarrow> None)"

subsection \<open>Resolution\<close>

definition resolveAuthCallback ::
  "'w GateService \<Rightarrow> val \<Rightarrow> string \<Rightarrow> 'w st \<Rightarrow> exn + (val \<Rightarrow> val list \<Rightarrow> ('w, outcome) proc)" where
  "resolveAuthCallback g user ability s =
     (let global = (case abilities g ability of
                      Some callback \<Rightarrow> Inr (call callback)
                    | None \<Rightarrow> Inr (\<lambda>u xs. return ONull))
      in if truthy (arg0 (args s)) then
           (case getPolicyFor (policies g) (arg0 (args s)) of
              Inl e \<Rightarrow> Inl e
            | Inr None \<Rightarrow> global
            | Inr (Some policy) \<Rightarrow>
                (case resolvePolicyCallback user ability policy of
                   Some callback \<Rightarrow> Inr (\<lambda>u xs. callback)
                 | None \<Rightarrow> global))
         else global)"

definition callAuthCallback :: "'w GateService \<Rightarrow> val \<Rightarrow> string \<Rightarrow> ('w, outcome) proc" where
  "callAuthCallback g user ability s =
     (case resolveAuthCallback g user ability s of
        Inl e \<Rightarrow> (Inl e, s)
      | Inr callback \<Rightarrow> callback user (args s) s)"

definition raw :: "'w GateService \<Rightarrow> val \<Rightarrow> string \<Rightarrow> ('w, outcome) proc" where
  "raw g ctx ability =
     (let user = resolveUser ctx
      in await (await (callBeforeCallbacks g user ability)
                  (\<lambda>r. if nullish r then callAuthCallback g user ability else return r))
           (\<lambda>result. callAfterCallbacks g user ability result))"

subsection \<open>Queries\<close>

fun outcome_truthy :: "outcome \<Rightarrow> bool" where
  "outcome_truthy (OBool b) = b"
| "outcome_truthy (OResponse r) = True"
| "outcome_truthy r = False"

definition inspect :: "'w GateService \<Rightarrow> val \<Rightarrow> string \<Rightarrow> ('w, GateResponse) proc" where
  "inspect g ctx ability =
     await (raw g ctx ability)
       (\<lambda>result. case result of
                    OResponse r \<Rightarrow> return r
                  | _ \<Rightarrow> return (if outcome_truthy result then allow None VNull else deny None VNull))"

primrec check_loop :: "string list \<Rightarrow> 'w GateService \<Rightarrow> val \<Rightarrow> ('w, bool) proc" where
  "check_loop [] g ctx = return True"
| "check_loop (ability # rest) g ctx =
     await (inspect g ctx ability)
       (\<lambda>r. if \<not> allowed r then return False else check_loop rest g ctx)"

definition check :: "'w GateService \<Rightarrow> val \<Rightarrow> abilities_arg \<Rightarrow> ('w, bool) proc" where
  "check g ctx as = check_loop (to_array as) g ctx"

primrec any_loop :: "string list \<Rightarrow> 'w GateService \<Rightarrow> val \<Rightarrow> ('w, bool) proc" where
  "any_loop [] g ctx = return False"
| "any_loop (ability # rest) g ctx =
     await (inspect g ctx ability)
       (\<lambda>r. if allowed r then return True else any_loop rest g ctx)"

definition any :: "'w GateService \<Rightarrow> val \<Rightarrow> abilities_arg \<Rightarrow> ('w, bool) proc" where
  "any g ctx as = any_loop (to_array as) g ctx"

definition allows :: "'w GateService \<Rightarrow> val \<Rightarrow> abilities_arg \<Rightarrow> ('w, bool) proc" where
  "allows g ctx as = check g ctx as"

definition denies :: "'w GateService \<Rightarrow> val \<Rightarrow> abilities_arg \<Rightarrow> ('w, bool) proc" where
  "denies g ctx as = await (allows g ctx as) (\<lambda>b. return (\<not> b))"

definition none :: "'w GateService \<Rightarrow> val \<Rightarrow> abilities_arg \<Rightarrow> ('w, bool) proc" where
  "none g ctx as = await (any g ctx as) (\<lambda>b. return (\<not> b))"

definition authorize :: "'w GateService \<Rightarrow> val \<Rightarrow> string \<Rightarrow> ('w, GateResponse) proc" where
  "authorize g ctx ability =
     await (inspect g ctx ability) (\<lambda>r s. (response_authorize r, s))"

section \<open>Example registrations\<close>

text \<open>A class \<open>Base\<close> and a class \<open>Derived\<close> that extends it.\<close>

definition Base :: cls where
  "Base = Cls ''Base'' None"

definition Derived :: cls where
  "Derived = Cls ''Derived'' (Some Base)"

text \<open>
  Callbacks that leave a trace: the world is the list of the names of the callbacks
  that ran, in the order they ran.
\<close>

definition log_before :: "string \<Rightarrow> outcome \<Rightarrow> string list BeforeCallback" where
  "log_before name r user ability s = (Inr r, s\<lparr>world := world s @ [name]\<rparr>)"

definition log_after :: "string \<Rightarrow> outcome \<Rightarrow> string list AfterCallback" where
  "log_after name r user ability result s = (Inr r, s\<lparr>world := world s @ [name]\<rparr>)"

definition log_ability :: "string \<Rightarrow> outcome \<Rightarrow> string list AbilityCallback" where
  "log_ability name r user xs w = (Inr r, w @ [name])"

definition start :: "val list \<Rightarrow> string list st" where
  "start xs = \<lparr>args = xs, world = []\<rparr>"

text \<open>Three before-hooks, the second of which denies, around an allowing ability
  \<open>x\<close> and an after-hook.\<close>

definition gate_before_denies :: "string list GateService" where
  "gate_before_denies =
     after (log_after ''after'' (OBool True))
       (before (log_before ''b3'' (OBool True))
         (before (log_before ''b2'' (OBool False))
           (before (log_before ''b1'' ONull)
             (define_ability ''x'' (log_ability ''x'' (OBool True)) empty_gate))))"

definition gate_two_hooks :: "string list GateService" where
  "gate_two_hooks =
     before (log_before ''b2'' (OBool False)) (before (log_before ''b1'' ONull) empty_gate)"

text \<open>An ability that resolves to nothing, followed by three after-hooks of which the
  second is the first to return a value.\<close>

definition gate_after_coalesce :: "string list GateService" where
  "gate_after_coalesce =
     after (log_after ''a3'' (OBool False))
       (after (log_after ''a2'' (OBool True))
         (after (log_after ''a1'' OUndefined) empty_gate))"

text \<open>An allowing ability \<open>x\<close> with one after-hook that would deny.\<close>

definition gate_after_idle :: "string list GateService" where
  "gate_after_idle =
     after (log_after ''a1'' (OBool False))
       (define_ability ''x'' (log_ability ''x'' (OBool True)) empty_gate)"

text \<open>A gate none of whose callbacks throws: every registered hook, ability callback
  and policy method returns an outcome on every input.\<close>

definition callbacks_return :: "'w GateService \<Rightarrow> bool" where
  "callbacks_return g \<longleftrightarrow>
     (\<forall>b\<in>set (beforeCallbacks g). \<forall>u a s. \<exists>r s'. b u a s = (Inr r, s')) \<and>
     (\<forall>h\<in>set (afterCallbacks g). \<forall>u a r0 s. \<exists>r s'. h u a r0 s = (Inr r, s')) \<and>
     (\<forall>a cb. abilities g a = Some cb \<longrightarrow> (\<forall>u xs w. \<exists>r w'. cb u xs w = (Inr r, w'))) \<and>
     (\<forall>p\<in>snd ` set (policies g). \<forall>name m. p name = Some (Method m) \<longrightarrow>
        (\<forall>u xs w. \<exists>r w'. m u xs w = (Inr r, w')))"

text \<open>An ability \<open>x\<close> that denies with a status of 404, an ability \<open>z\<close> that
  denies with a status of 0, and an ability \<open>ok\<close> that allows.\<close>

definition gate_statuses :: "string list GateService" where
  "gate_statuses =
     define_ability ''ok'' (log_ability ''ok'' (OBool True))
       (define_ability ''z'' (log_ability ''z'' (OResponse (denyWithStatus 0 None VNull)))
         (define_ability ''x'' (log_ability ''x'' (OResponse (denyAsNotFound None VNull)))
           empty_gate))"

text \<open>Whether a policy answers an ability for a subject: the subject is truthy, a
  policy is found for it, and the policy has the derived method as a function.\<close>

definition policy_answers :: "'w GateService \<Rightarrow> string \<Rightarrow> val \<Rightarrow> bool" where
  "policy_answers g ability x =
     (truthy x \<and>
      (case getPolicyFor (policies g) x of
         Inr (Some policy) \<Rightarrow>
           (case policy (formatAbilityToMethod ability) of
              Some (Method m) \<Rightarrow> True
            | _ \<Rightarrow> False)
       | _ \<Rightarrow> False))"

text \<open>A policy for \<open>Base\<close> with the methods \<open>createPost\<close> and \<open>deletePost\<close>, both
  allowing, and a field \<open>label\<close>.\<close>

definition BasePolicy :: "string list PolicyMap" where
  "BasePolicy =
     [''createPost'' \<mapsto> Method (log_ability ''BasePolicy.createPost'' (OBool True)),
      ''deletePost'' \<mapsto> Method (log_ability ''BasePolicy.deletePost'' (OBool True)),
      ''label'' \<mapsto> Field (VStr ''posts'')]"

text \<open>A gate with that policy, the ability \<open>x\<close>, a before-hook and an after-hook that
  return \<open>null\<close> and an after-hook that returns \<open>undefined\<close>.\<close>

definition gate_quiet_hooks :: "string list GateService" where
  "gate_quiet_hooks =
     after (log_after ''a2'' OUndefined)
       (after (log_after ''a1'' ONull)
         (before (log_before ''b1'' ONull)
           (define_ability ''x'' (log_ability ''x'' (OBool True))
             (onApplicationBootstrap [(Base, BasePolicy)] empty_gate))))"

definition gate_null_hooks :: "string list GateService" where
  "gate_null_hooks =
     after (log_after ''a1'' ONull)
       (before (log_before ''b1'' ONull)
         (define_ability ''x'' (log_ability ''x'' (OBool True))
           (onApplicationBootstrap [(Base, BasePolicy)] empty_gate)))"

text \<open>
  The call of a policy method in the words of the specification: a leading class
  reference is dropped from the arguments, the method gets the user and the remaining
  arguments, and the array is left without the class reference.
\<close>

definition method_call :: "'w AbilityCallback \<Rightarrow> val \<Rightarrow> ('w, outcome) proc" where
  "method_call m user s =
     (let xs = (case arg0 (args s) of VClass c \<Rightarrow> tl (args s) | _ \<Rightarrow> args s)
      in case m user xs (world s) of (r, w') \<Rightarrow> (r, \<lparr>args = xs, world = w'\<rparr>))"

text \<open>Whether \<open>inspect\<close> turns an outcome into an allowed response.\<close>

fun outcome_allows :: "outcome \<Rightarrow> bool" where
  "outcome_allows (OResponse r) = allowed r"
| "outcome_allows (OBool b) = b"
| "outcome_allows OUndefined = False"
| "outcome_allows ONull = False"

text \<open>The policy for \<open>Base\<close> with a \<open>before\<close> method that allows, and with one that
  returns \<open>null\<close>.\<close>

definition PolicyBeforeAllows :: "string list PolicyMap" where
  "PolicyBeforeAllows =
     BasePolicy(''before'' \<mapsto> Method (log_ability ''BasePolicy.before'' (OBool True)))"

definition PolicyBeforeNull :: "string list PolicyMap" where
  "PolicyBeforeNull =
     BasePolicy(''before'' \<mapsto> Method (log_ability ''BasePolicy.before'' ONull))"

definition gate_policy :: "string list PolicyMap \<Rightarrow> string list GateService" where
  "gate_policy policy = onApplicationBootstrap [(Base, policy)] empty_gate"

section \<open>Properties of the method-name derivation\<close>

lemma capitalize_charAt:
  "toUpperCase rt [] = [] \<Longrightarrow>
   toUpperCase rt (charAt word 0) @ slice word (Suc 0) = capitalize rt word"
  by (cases word) (simp_all add: charAt_def slice_def)

lemma map_enumerate_pos:
  "0 < n \<Longrightarrow> map (\<lambda>(i, w). if i = 0 then w else g w) (enumerate n ws) = map g ws"
  by (induction ws arbitrary: n) simp_all

lemma map_index_camel:
  assumes empty: "toUpperCase rt [] = []"
  shows "join (map_index (\<lambda>word index. if index = 0 then word
                                   else toUpperCase rt (charAt word 0) @ slice word 1) ws)
   = camel_join rt ws"
proof (cases ws)
  case Nil
  then show ?thesis by (simp add: join_def map_index_def)
next
  case (Cons w rest)
  have "map (\<lambda>(i, w). if i = 0 then w else toUpperCase rt (charAt w 0) @ slice w 1)
          (enumerate (Suc 0) rest)
        = map (\<lambda>w. toUpperCase rt (charAt w 0) @ slice w 1) rest"
    by (rule map_enumerate_pos) simp
  also have "\<dots> = map (capitalize rt) rest"
    by (simp add: capitalize_charAt [OF empty])
  finally show ?thesis
    using Cons by (simp add: join_def map_index_def)
qed

lemma separator_delimiter: "separator rt = delimiter rt"
  by (rule ext) (auto simp: separator_def delimiter_def)

lemma split_sep_not_Nil: "split_sep p s \<noteq> []"
  by (induction p s rule: split_sep.induct) (auto split: list.splits)

lemma pieces_Nil: "pieces d [] = [[]]"
  by (simp add: pieces.simps [of d "[]"])

lemma pieces_delimiter: "d c \<Longrightarrow> pieces d (c # cs) = [] # pieces d (dropWhile d cs)"
  by (simp add: pieces.simps [of d "c # cs"])

lemma pieces_letter:
  "\<not> d c \<Longrightarrow> pieces d (c # cs) = (case pieces d cs of [] \<Rightarrow> [[c]] | w # ws \<Rightarrow> (c # w) # ws)"
  by (simp add: pieces.simps [of d "c # cs"] pieces.simps [of d cs] Let_def)

lemma split_sep_pieces: "split_sep d s = pieces d s"
proof (induction d s rule: split_sep.induct)
  case (1 p)
  show ?case by (simp add: pieces_Nil)
next
  case (2 p c cs)
  show ?case
  proof (cases "p c")
    case True
    with "2.IH"(1) show ?thesis by (simp add: pieces_delimiter)
  next
    case False
    with "2.IH"(2) show ?thesis by (simp add: pieces_letter)
  qed
qed

lemma camel_scan_skip:
  "camel_scan rt True (dropWhile (delimiter rt) cs) = camel_scan rt True cs"
  by (induction cs) simp_all

lemma split_sep_scan:
  "d = delimiter rt \<Longrightarrow>
   camel_join rt (split_sep d s) = camel_scan rt False s \<and>
   concat (map (capitalize rt) (split_sep d s)) = camel_scan rt True s"
proof (induction d s rule: split_sep.induct)
  case (1 p)
  show ?case by simp
next
  case (2 p c cs)
  show ?case
  proof (cases "p c")
    case True
    with "2.IH"(1) "2.prems"
    have "concat (map (capitalize rt) (split_sep p (dropWhile p cs)))
            = camel_scan rt True (dropWhile (delimiter rt) cs)"
      by simp
    with True "2.prems" show ?thesis
      by (simp add: camel_scan_skip)
  next
    case False
    obtain w ws where ws: "split_sep p cs = w # ws"
      using split_sep_not_Nil [of p cs] by (cases "split_sep p cs") auto
    from "2.IH"(2) False "2.prems" ws
    have "w @ concat (map (capitalize rt) ws) = camel_scan rt False cs"
      by simp
    with False "2.prems" ws show ?thesis
      by simp
  qed
qed

text \<open>
  C7. For every runtime (whose \<open>toUpperCase\<close> maps the empty string to the empty
  string) and every ability name: a name that contains a hyphen is
  lower-cased, split on runs of hyphen, underscore and whitespace, and joined again
  with the first word as it is and the first character of every later word in upper
  case; read character by character, the delimiters are dropped and exactly the
  characters that follow a delimiter are capitalised. A name with no hyphen is the
  method name as it stands.
\<close>

theorem formatAbilityToMethod_rule:
  assumes empty: "toUpperCase rt [] = []"
  shows
  "(str_includes ability (hyphen rt) \<longrightarrow>
      formatAbilityToMethod_rt rt ability = camel_spec rt ability \<and>
      formatAbilityToMethod_rt rt ability = camel_scan rt False (toLowerCase rt ability)) \<and>
   (\<not> str_includes ability (hyphen rt) \<longrightarrow> formatAbilityToMethod_rt rt ability = ability)"
proof (intro conjI impI)
  assume h: "str_includes ability (hyphen rt)"
  then have f: "formatAbilityToMethod_rt rt ability
                  = camel_join rt (split_sep (delimiter rt) (toLowerCase rt ability))"
    by (simp add: formatAbilityToMethod_rt_def map_index_camel [OF empty] separator_delimiter)
  then show "formatAbilityToMethod_rt rt ability = camel_spec rt ability"
    by (simp add: camel_spec_def split_sep_pieces)
  from f show "formatAbilityToMethod_rt rt ability
                 = camel_scan rt False (toLowerCase rt ability)"
    using split_sep_scan [of "delimiter rt" rt "toLowerCase rt ability"] by simp
next
  assume "\<not> str_includes ability (hyphen rt)"
  then show "formatAbilityToMethod_rt rt ability = ability"
    by (simp add: formatAbilityToMethod_rt_def)
qed

theorem formatAbilityToMethod_rule_witness:
  "formatAbilityToMethod ''create-post'' = ''createPost'' \<and>
   formatAbilityToMethod ''Create-POST'' = ''createPost'' \<and>
   formatAbilityToMethod ''publish_my-blog post'' = ''publishMyBlogPost'' \<and>
   formatAbilityToMethod ''-create--post-'' = ''CreatePost'' \<and>
   formatAbilityToMethod ''createPost'' = ''createPost'' \<and>
   formatAbilityToMethod ''publish_post'' = ''publish_post'' \<and>
   formatAbilityToMethod_rt latin1 [97, 45, 98, 160, 99] = [97, 66, 67] \<and>
   formatAbilityToMethod_rt latin1 [201, 45, 120] = [233, 88] \<and>
   formatAbilityToMethod_rt latin1 [97, 45, 223, 120] = [97, 83, 83, 120]"
proof -
  have hy: "str_includes ''create-post'' (hyphen ascii)"
    "str_includes ''Create-POST'' (hyphen ascii)"
    "str_includes ''publish_my-blog post'' (hyphen ascii)"
    "str_includes ''-create--post-'' (hyphen ascii)"
    "\<not> str_includes ''createPost'' (hyphen ascii)"
    "\<not> str_includes ''publish_post'' (hyphen ascii)"
    by (simp_all add: str_includes_def ascii_def)
  have hl: "str_includes [97, 45, 98, 160, 99] (hyphen latin1)"
    "str_includes [201, 45, 120] (hyphen latin1)"
    "str_includes [97, 45, 223, 120] (hyphen latin1)"
    by (simp_all add: str_includes_def latin1_def)
  have words: "camel_spec ascii ''create-post'' = ''createPost''"
    "camel_spec ascii ''Create-POST'' = ''createPost''"
    "camel_spec ascii ''publish_my-blog post'' = ''publishMyBlogPost''"
    "camel_spec ascii ''-create--post-'' = ''CreatePost''"
    by code_simp+
  have scan: "camel_scan latin1 False (toLowerCase latin1 [97, 45, 98, 160, 99]) = [97, 66, 67]"
    "camel_scan latin1 False (toLowerCase latin1 [201, 45, 120]) = [233, 88]"
    "camel_scan latin1 False (toLowerCase latin1 [97, 45, 223, 120]) = [97, 83, 83, 120]"
    by (simp_all add: latin1_def js_whitespace_def latin1_lower_def latin1_upper_def
        delimiter_def)
  have ea: "toUpperCase ascii [] = []"
    by (simp add: ascii_def)
  have el: "toUpperCase latin1 [] = []"
    by (simp add: latin1_def)
  note with_hyphen = formatAbilityToMethod_rule [OF ea, THEN conjunct1, THEN mp]
  note no_hyphen = formatAbilityToMethod_rule [OF ea, THEN conjunct2, THEN mp]
  note with_hyphen' = formatAbilityToMethod_rule [OF el, THEN conjunct1, THEN mp]
  have r1: "formatAbilityToMethod ''create-post'' = ''createPost''"
    unfolding formatAbilityToMethod_def
    by (rule trans [OF with_hyphen [OF hy(1), THEN conjunct1] words(1)])
  have r2: "formatAbilityToMethod ''Create-POST'' = ''createPost''"
    unfolding formatAbilityToMethod_def
    by (rule trans [OF with_hyphen [OF hy(2), THEN conjunct1] words(2)])
  have r3: "formatAbilityToMethod ''publish_my-blog post'' = ''publishMyBlogPost''"
    unfolding formatAbilityToMethod_def
    by (rule trans [OF with_hyphen [OF hy(3), THEN conjunct1] words(3)])
  have r4: "formatAbilityToMethod ''-create--post-'' = ''CreatePost''"
    unfolding formatAbilityToMethod_def
    by (rule trans [OF with_hyphen [OF hy(4), THEN conjunct1] words(4)])
  have r5: "formatAbilityToMethod ''createPost'' = ''createPost''"
    unfolding formatAbilityToMethod_def
    by (rule no_hyphen [OF hy(5)])
  have r6: "formatAbilityToMethod ''publish_post'' = ''publish_post''"
    unfolding formatAbilityToMethod_def
    by (rule no_hyphen [OF hy(6)])
  have r7: "formatAbilityToMethod_rt latin1 [97, 45, 98, 160, 99] = [97, 66, 67]"
    by (rule trans [OF with_hyphen' [OF hl(1), THEN conjunct2] scan(1)])
  have r8: "formatAbilityToMethod_rt latin1 [201, 45, 120] = [233, 88]"
    by (rule trans [OF with_hyphen' [OF hl(2), THEN conjunct2] scan(2)])
  have r9: "formatAbilityToMethod_rt latin1 [97, 45, 223, 120] = [97, 83, 83, 120]"
    by (rule trans [OF with_hyphen' [OF hl(3), THEN conjunct2] scan(3)])
  from r1 r2 r3 r4 r5 r6 r7 r8 r9 show ?thesis
    by blast
qed

text \<open>
  C8. A name whose words are separated by whitespace only has no hyphen, so it is
  returned as it stands: \<open>create post\<close> stays \<open>create post\<close> and is not folded
  into \<open>createPost\<close>. Whitespace is folded only on the path a hyphen opens:
  \<open>my-create post\<close> gives \<open>myCreatePost\<close>.
\<close>

theorem whitespace_only_name_verbatim:
  "formatAbilityToMethod ''create post'' = ''create post'' \<and>
   formatAbilityToMethod ''my-create post'' = ''myCreatePost''"
  by code_simp

section \<open>Properties of the policy lookup\<close>

lemma map_of_None_scan_obj:
  "map_of ps c = None \<Longrightarrow>
   policies_scan ps (VObj c) = map_option snd (find (\<lambda>(t, policy). t \<in> set (ancestors c)) ps)"
  by (induction ps) (auto split: if_splits)

lemma scan_proto:
  "policies_scan ps (VProto c) = map_option snd (find (\<lambda>(t, policy). t \<in> set (ancestors c)) ps)"
  by (induction ps) auto

lemma getPolicyFor_VObj: "getPolicyFor ps (VObj c) = Inr (policyFor_spec ps c)"
  by (simp add: getPolicyFor_def policyFor_spec_def map_of_None_scan_obj split: option.splits)

lemma getPolicyFor_VClass: "getPolicyFor ps (VClass c) = Inr (policyFor_spec ps c)"
  by (simp add: getPolicyFor_def policyFor_spec_def scan_proto split: option.splits)

lemma getPolicyFor_truthy: "truthy v \<Longrightarrow> \<exists>r. getPolicyFor ps v = Inr r"
  by (cases v) (simp_all add: getPolicyFor_def split: option.splits)

text \<open>
  C4. For a subject that is an instance of a class or a class reference, the lookup
  returns the policy registered for exactly that class when there is one; otherwise the
  policy of the first registered pair whose class is an ancestor of the subject's
  class; otherwise the sentinel for no policy. It returns in every case, so an exact
  registration wins over an ancestor's.
\<close>

theorem getPolicyFor_two_phase:
  assumes "subject = VObj c \<or> subject = VClass c"
  shows "getPolicyFor ps subject = Inr (policyFor_spec ps c) \<and>
         (\<forall>policy. map_of ps c = Some policy \<longrightarrow> getPolicyFor ps subject = Inr (Some policy))"
  using assms
  by (auto simp: getPolicyFor_VObj getPolicyFor_VClass policyFor_spec_def)

theorem getPolicyFor_two_phase_witness:
  "getPolicyFor [(Base, ''BasePolicy''), (Derived, ''DerivedPolicy'')] (VObj Derived)
     = Inr (Some ''DerivedPolicy'') \<and>
   getPolicyFor [(Base, ''BasePolicy'')] (VObj Derived) = Inr (Some ''BasePolicy'') \<and>
   getPolicyFor [(Base, ''BasePolicy'')] (VClass Derived) = Inr (Some ''BasePolicy'') \<and>
   getPolicyFor [(Derived, ''DerivedPolicy'')] (VObj Base) = Inr None"
proof -
  have ne: "Base \<noteq> Derived"
    by (simp add: Base_def Derived_def)
  have anc: "ancestors Derived = [Base]" "ancestors Base = []"
    by (simp_all add: Base_def Derived_def)
  have s2: "policyFor_spec [(Base, ''BasePolicy'')] Derived = Some ''BasePolicy''"
    using ne by (simp add: policyFor_spec_def anc)
  have s3: "policyFor_spec [(Derived, ''DerivedPolicy'')] Base = None"
    using ne by (simp add: policyFor_spec_def anc)
  have o: "VObj Derived = VObj Derived \<or> VObj Derived = VClass Derived"
    by simp
  have k: "VClass Derived = VObj Derived \<or> VClass Derived = VClass Derived"
    by simp
  have b: "VObj Base = VObj Base \<or> VObj Base = VClass Base"
    by simp
  have r1: "getPolicyFor [(Base, ''BasePolicy''), (Derived, ''DerivedPolicy'')] (VObj Derived)
              = Inr (Some ''DerivedPolicy'')"
  proof -
    have "map_of [(Base, ''BasePolicy''), (Derived, ''DerivedPolicy'')] Derived
            = Some ''DerivedPolicy''"
      using ne by simp
    with getPolicyFor_two_phase
           [OF o, where ps = "[(Base, ''BasePolicy''), (Derived, ''DerivedPolicy'')]"]
    show ?thesis by blast
  qed
  have r2: "getPolicyFor [(Base, ''BasePolicy'')] (VObj Derived) = Inr (Some ''BasePolicy'')"
    using getPolicyFor_two_phase [OF o, where ps = "[(Base, ''BasePolicy'')]"] s2
    by simp
  have r3: "getPolicyFor [(Base, ''BasePolicy'')] (VClass Derived) = Inr (Some ''BasePolicy'')"
    using getPolicyFor_two_phase [OF k, where ps = "[(Base, ''BasePolicy'')]"] s2
    by simp
  have r4: "getPolicyFor [(Derived, ''DerivedPolicy'')] (VObj Base) = Inr None"
    using getPolicyFor_two_phase [OF b, where ps = "[(Derived, ''DerivedPolicy'')]"] s3
    by simp
  from r1 r2 r3 r4 show ?thesis by blast
qed

section \<open>Properties of the hook pipeline\<close>

lemma nullish_iff: "nullish r \<longleftrightarrow> r = ONull \<or> r = OUndefined"
  by (cases r) simp_all

lemma await_Inr: "m s = (Inr x, s') \<Longrightarrow> await m f s = f x s'"
  by (simp add: await_def)

lemma await_Inl: "m s = (Inl e, s') \<Longrightarrow> await m f s = (Inl e, s')"
  by (simp add: await_def)

lemma return_apply: "return x s = (Inr x, s)"
  by (simp add: return_def)

lemma before_loop_chain:
  assumes "k < length bs"
    and "\<forall>i<k. \<exists>n. nullish n \<and> (bs ! i) u a (\<sigma> i) = (Inr n, \<sigma> (Suc i))"
    and "(bs ! k) u a (\<sigma> k) = (Inr v, s')"
    and "\<not> nullish v"
  shows "before_loop bs u a (\<sigma> 0) = (Inr v, s')"
  using assms
proof (induction bs arbitrary: k \<sigma>)
  case Nil
  then show ?case by simp
next
  case (Cons b bs)
  show ?case
  proof (cases k)
    case 0
    with Cons.prems show ?thesis
      by (simp add: await_def return_def nullish_iff)
  next
    case (Suc j)
    from Cons.prems(2) Suc obtain n where n: "nullish n" "b u a (\<sigma> 0) = (Inr n, \<sigma> (Suc 0))"
      by fastforce
    have "before_loop bs u a ((\<lambda>i. \<sigma> (Suc i)) 0) = (Inr v, s')"
    proof (rule Cons.IH [where k = j])
      show "j < length bs" using Cons.prems(1) Suc by simp
      show "\<forall>i<j. \<exists>n. nullish n \<and> (bs ! i) u a (\<sigma> (Suc i)) = (Inr n, \<sigma> (Suc (Suc i)))"
        using Cons.prems(2) Suc by fastforce
      show "(bs ! j) u a (\<sigma> (Suc j)) = (Inr v, s')"
        using Cons.prems(3) Suc by simp
      show "\<not> nullish v" by (rule Cons.prems(4))
    qed
    with n show ?thesis
      by (auto simp: await_def return_def nullish_iff)
  qed
qed

lemma after_loop_value: "\<not> nullish r \<Longrightarrow> after_loop hs u a r s = (Inr r, s)"
  by (induction hs) (simp_all add: return_def)

lemma raw_short_circuit:
  assumes "callBeforeCallbacks g (resolveUser ctx) a s = (Inr v, s')" and "\<not> nullish v"
  shows "raw g ctx a s = (Inr v, s')"
  using assms
  by (simp add: raw_def Let_def await_def return_def callAfterCallbacks_def after_loop_value)

lemma inspect_of_raw:
  "raw g ctx a s = (Inr v, s') \<Longrightarrow>
   inspect g ctx a s =
     (Inr (case v of OResponse r \<Rightarrow> r
           | _ \<Rightarrow> if outcome_truthy v then allow None VNull else deny None VNull), s')"
  by (cases v) (simp_all add: inspect_def await_def return_def)

lemma check_One:
  "inspect g ctx a s = (Inr r, s') \<Longrightarrow> check g ctx (One a) s = (Inr (allowed r), s')"
  by (simp add: check_def await_def return_def)

lemma any_One:
  "inspect g ctx a s = (Inr r, s') \<Longrightarrow> any g ctx (One a) s = (Inr (allowed r), s')"
  by (simp add: any_def await_def return_def)

lemma inspect_allowed:
  "raw g ctx a s = (Inr v, s') \<Longrightarrow>
   \<exists>r. inspect g ctx a s = (Inr r, s') \<and> allowed r = outcome_allows v"
  by (cases v) (simp_all add: inspect_def await_def return_def allow_def deny_def)

text \<open>
  C1. The before-hooks run in registration order, each on the store the one before it
  left (\<open>\<sigma> i\<close> is the store on which hook \<open>i\<close> starts). When the hooks before
  hook \<open>k\<close> return \<open>null\<close> or \<open>undefined\<close> and hook \<open>k\<close> returns a value
  \<open>v\<close>, the check returns \<open>v\<close> on the store hook \<open>k\<close> left: whatever later
  before-hooks, abilities, policies and after-hooks are registered, none of them ran.
  A hook that returns \<open>false\<close> makes \<open>allows\<close> false.
\<close>

theorem before_hook_short_circuit:
  assumes "k < length (beforeCallbacks g)"
    and "\<forall>i<k. \<exists>n. nullish n \<and>
           (beforeCallbacks g ! i) (resolveUser ctx) a (\<sigma> i) = (Inr n, \<sigma> (Suc i))"
    and "(beforeCallbacks g ! k) (resolveUser ctx) a (\<sigma> k) = (Inr v, s')"
    and "\<not> nullish v"
  shows "raw g ctx a (\<sigma> 0) = (Inr v, s') \<and>
         (\<forall>g'. take (Suc k) (beforeCallbacks g') = take (Suc k) (beforeCallbacks g) \<longrightarrow>
               raw g' ctx a (\<sigma> 0) = (Inr v, s')) \<and>
         (v = OBool False \<longrightarrow> allows g ctx (One a) (\<sigma> 0) = (Inr False, s'))"
proof -
  have run: "raw h ctx a (\<sigma> 0) = (Inr v, s')"
    if "take (Suc k) (beforeCallbacks h) = take (Suc k) (beforeCallbacks g)" for h
  proof -
    have len: "k < length (beforeCallbacks h)"
    proof (rule ccontr)
      assume "\<not> k < length (beforeCallbacks h)"
      then have "length (take (Suc k) (beforeCallbacks h)) \<le> k" by simp
      moreover have "length (take (Suc k) (beforeCallbacks g)) = Suc k"
        using assms(1) by simp
      ultimately show False using that by simp
    qed
    have nth: "beforeCallbacks h ! i = beforeCallbacks g ! i" if "i \<le> k" for i
    proof -
      have "beforeCallbacks h ! i = take (Suc k) (beforeCallbacks h) ! i"
        using that by simp
      also have "\<dots> = take (Suc k) (beforeCallbacks g) ! i"
        using \<open>take (Suc k) (beforeCallbacks h) = take (Suc k) (beforeCallbacks g)\<close> by simp
      also have "\<dots> = beforeCallbacks g ! i"
        using that by simp
      finally show ?thesis .
    qed
    have "before_loop (beforeCallbacks h) (resolveUser ctx) a (\<sigma> 0) = (Inr v, s')"
    proof (rule before_loop_chain [where k = k])
      show "k < length (beforeCallbacks h)" by (rule len)
      show "\<forall>i<k. \<exists>n. nullish n \<and>
              (beforeCallbacks h ! i) (resolveUser ctx) a (\<sigma> i) = (Inr n, \<sigma> (Suc i))"
        using assms(2) nth by simp
      show "(beforeCallbacks h ! k) (resolveUser ctx) a (\<sigma> k) = (Inr v, s')"
        using assms(3) nth by simp
      show "\<not> nullish v" by (rule assms(4))
    qed
    then show ?thesis
      using assms(4) by (simp add: raw_short_circuit callBeforeCallbacks_def)
  qed
  have g: "raw g ctx a (\<sigma> 0) = (Inr v, s')"
    by (rule run) simp
  have "allows g ctx (One a) (\<sigma> 0) = (Inr False, s')" if "v = OBool False"
    using inspect_of_raw [OF g] that
    by (simp add: allows_def check_One deny_def)
  with g run show ?thesis by blast
qed

theorem before_hook_short_circuit_witness:
  "raw gate_before_denies VUndefined ''x'' (start [])
     = (Inr (OBool False), \<lparr>args = [], world = [''b1'', ''b2'']\<rparr>) \<and>
   raw gate_two_hooks VUndefined ''x'' (start [])
     = (Inr (OBool False), \<lparr>args = [], world = [''b1'', ''b2'']\<rparr>) \<and>
   allows gate_before_denies VUndefined (One ''x'') (start [])
     = (Inr False, \<lparr>args = [], world = [''b1'', ''b2'']\<rparr>)"
proof -
  define \<sigma> :: "nat \<Rightarrow> string list st"
    where "\<sigma> i = (if i = 0 then start [] else \<lparr>args = [], world = [''b1'']\<rparr>)" for i
  have bc: "beforeCallbacks gate_before_denies =
              [log_before ''b1'' ONull, log_before ''b2'' (OBool False),
               log_before ''b3'' (OBool True)]"
    by (simp add: gate_before_denies_def after_def before_def define_ability_def empty_gate_def)
  have bc': "beforeCallbacks gate_two_hooks =
               [log_before ''b1'' ONull, log_before ''b2'' (OBool False)]"
    by (simp add: gate_two_hooks_def before_def empty_gate_def)
  have h1: "Suc 0 < length (beforeCallbacks gate_before_denies)"
    by (simp add: bc)
  have h2: "\<forall>i<Suc 0. \<exists>n. nullish n \<and>
              (beforeCallbacks gate_before_denies ! i) (resolveUser VUndefined) ''x'' (\<sigma> i)
                = (Inr n, \<sigma> (Suc i))"
    by (simp add: bc \<sigma>_def log_before_def start_def)
  have h3: "(beforeCallbacks gate_before_denies ! Suc 0) (resolveUser VUndefined) ''x'' (\<sigma> (Suc 0))
              = (Inr (OBool False), \<lparr>args = [], world = [''b1'', ''b2'']\<rparr>)"
    by (simp add: bc \<sigma>_def log_before_def)
  have h4: "\<not> nullish (OBool False)"
    by simp
  have same: "take (Suc (Suc 0)) (beforeCallbacks gate_two_hooks)
                = take (Suc (Suc 0)) (beforeCallbacks gate_before_denies)"
    by (simp add: bc bc')
  from before_hook_short_circuit [OF h1 h2 h3 h4] same
  show ?thesis
    by (simp add: \<sigma>_def)
qed

lemma after_loop_chain:
  assumes "k < length hs"
    and "nullish (\<rho> 0)"
    and "\<forall>i<k. nullish (\<rho> (Suc i)) \<and> (hs ! i) u a (\<rho> i) (\<sigma> i) = (Inr (\<rho> (Suc i)), \<sigma> (Suc i))"
    and "(hs ! k) u a (\<rho> k) (\<sigma> k) = (Inr v, s')"
    and "\<not> nullish v"
  shows "after_loop hs u a (\<rho> 0) (\<sigma> 0) = (Inr v, s')"
  using assms
proof (induction hs arbitrary: k \<rho> \<sigma>)
  case Nil
  then show ?case by simp
next
  case (Cons h hs)
  show ?case
  proof (cases k)
    case 0
    with Cons.prems show ?thesis
      by (simp add: await_def after_loop_value)
  next
    case (Suc j)
    from Cons.prems(3) Suc
    have step: "nullish (\<rho> (Suc 0))" "h u a (\<rho> 0) (\<sigma> 0) = (Inr (\<rho> (Suc 0)), \<sigma> (Suc 0))"
      by fastforce+
    have "after_loop hs u a ((\<lambda>i. \<rho> (Suc i)) 0) ((\<lambda>i. \<sigma> (Suc i)) 0) = (Inr v, s')"
    proof (rule Cons.IH [where k = j])
      show "j < length hs" using Cons.prems(1) Suc by simp
      show "nullish (\<rho> (Suc 0))" by (rule step(1))
      show "\<forall>i<j. nullish (\<rho> (Suc (Suc i))) \<and>
              (hs ! i) u a (\<rho> (Suc i)) (\<sigma> (Suc i)) = (Inr (\<rho> (Suc (Suc i))), \<sigma> (Suc (Suc i)))"
        using Cons.prems(3) Suc by fastforce
      show "(hs ! j) u a (\<rho> (Suc j)) (\<sigma> (Suc j)) = (Inr v, s')"
        using Cons.prems(4) Suc by simp
      show "\<not> nullish v" by (rule Cons.prems(5))
    qed
    with step Cons.prems(2) show ?thesis
      by (simp add: await_def)
  qed
qed

lemma await_return: "await m (\<lambda>x. return x) = m"
  by (rule ext) (simp add: await_def return_def split: prod.splits sum.splits)

lemma callBeforeCallbacks_afterCallbacks:
  "callBeforeCallbacks (g\<lparr>afterCallbacks := hs\<rparr>) = callBeforeCallbacks g"
  by (rule ext)+ (simp add: callBeforeCallbacks_def)

lemma callAuthCallback_afterCallbacks:
  "callAuthCallback (g\<lparr>afterCallbacks := hs\<rparr>) = callAuthCallback g"
  by (rule ext)+ (simp add: callAuthCallback_def resolveAuthCallback_def Let_def)

lemma raw_without_after:
  "raw g ctx a = await (raw (g\<lparr>afterCallbacks := []\<rparr>) ctx a)
                   (callAfterCallbacks g (resolveUser ctx) a)"
proof -
  have "callAfterCallbacks (g\<lparr>afterCallbacks := []\<rparr>) (resolveUser ctx) a = (\<lambda>r. return r)"
    by (rule ext) (simp add: callAfterCallbacks_def)
  then have "raw (g\<lparr>afterCallbacks := []\<rparr>) ctx a =
               await (callBeforeCallbacks g (resolveUser ctx) a)
                 (\<lambda>r. if nullish r then callAuthCallback g (resolveUser ctx) a else return r)"
    by (simp add: raw_def Let_def callBeforeCallbacks_afterCallbacks
        callAuthCallback_afterCallbacks await_return cong: if_cong)
  then show ?thesis
    by (simp add: raw_def Let_def)
qed

text \<open>
  C2. An after-hook is called only when the result so far is \<open>null\<close> or
  \<open>undefined\<close>. On a result that is a value no after-hook runs: the result and the
  store stay as they are. On a result that is not a value the hooks run in registration
  order (\<open>\<rho> i\<close> and \<open>\<sigma> i\<close> are the result and the store on which hook \<open>i\<close>
  starts), and the first value a hook returns is the result, on the store that hook
  left, whatever hooks follow it. So when the before-hooks or the ability callback
  give a value, the check ends on their result and their store.
\<close>

theorem after_hooks_coalesce:
  "(\<not> nullish r \<longrightarrow> callAfterCallbacks g u a r s = (Inr r, s)) \<and>
   (k < length (afterCallbacks g) \<and> nullish (\<rho> 0) \<and>
    (\<forall>i<k. nullish (\<rho> (Suc i)) \<and>
            (afterCallbacks g ! i) u a (\<rho> i) (\<sigma> i) = (Inr (\<rho> (Suc i)), \<sigma> (Suc i))) \<and>
    (afterCallbacks g ! k) u a (\<rho> k) (\<sigma> k) = (Inr v, s') \<and> \<not> nullish v
    \<longrightarrow> callAfterCallbacks g u a (\<rho> 0) (\<sigma> 0) = (Inr v, s')) \<and>
   (raw (g\<lparr>afterCallbacks := []\<rparr>) ctx a s0 = (Inr v0, s0') \<and> \<not> nullish v0
    \<longrightarrow> raw g ctx a s0 = (Inr v0, s0'))"
proof (intro conjI impI)
  assume "\<not> nullish r"
  then show "callAfterCallbacks g u a r s = (Inr r, s)"
    by (simp add: callAfterCallbacks_def after_loop_value)
next
  assume h: "k < length (afterCallbacks g) \<and> nullish (\<rho> 0) \<and>
    (\<forall>i<k. nullish (\<rho> (Suc i)) \<and>
            (afterCallbacks g ! i) u a (\<rho> i) (\<sigma> i) = (Inr (\<rho> (Suc i)), \<sigma> (Suc i))) \<and>
    (afterCallbacks g ! k) u a (\<rho> k) (\<sigma> k) = (Inr v, s') \<and> \<not> nullish v"
  have "after_loop (afterCallbacks g) u a (\<rho> 0) (\<sigma> 0) = (Inr v, s')"
    by (rule after_loop_chain [where k = k]) (use h in blast)+
  then show "callAfterCallbacks g u a (\<rho> 0) (\<sigma> 0) = (Inr v, s')"
    by (simp add: callAfterCallbacks_def)
next
  assume "raw (g\<lparr>afterCallbacks := []\<rparr>) ctx a s0 = (Inr v0, s0') \<and> \<not> nullish v0"
  then show "raw g ctx a s0 = (Inr v0, s0')"
    by (simp add: raw_without_after [of g ctx a] await_def callAfterCallbacks_def after_loop_value)
qed

theorem after_hooks_coalesce_witness:
  "callAfterCallbacks gate_after_coalesce VUndefined ''y'' (OBool False) (start [])
     = (Inr (OBool False), start []) \<and>
   callAfterCallbacks gate_after_coalesce VUndefined ''y'' ONull (start [])
     = (Inr (OBool True), \<lparr>args = [], world = [''a1'', ''a2'']\<rparr>) \<and>
   raw gate_after_idle VUndefined ''x'' (start [])
     = (Inr (OBool True), \<lparr>args = [], world = [''x'']\<rparr>)"
proof -
  define \<rho> :: "nat \<Rightarrow> outcome" where "\<rho> i = (if i = 0 then ONull else OUndefined)" for i
  define \<sigma> :: "nat \<Rightarrow> string list st"
    where "\<sigma> i = (if i = 0 then start [] else \<lparr>args = [], world = [''a1'']\<rparr>)" for i
  have ac: "afterCallbacks gate_after_coalesce =
              [log_after ''a1'' OUndefined, log_after ''a2'' (OBool True),
               log_after ''a3'' (OBool False)]"
    by (simp add: gate_after_coalesce_def after_def empty_gate_def)
  have r1: "callAfterCallbacks gate_after_coalesce VUndefined ''y'' (OBool False) (start [])
              = (Inr (OBool False), start [])"
    using after_hooks_coalesce
            [where r = "OBool False" and g = gate_after_coalesce and u = VUndefined
               and a = "''y''" and s = "start []", THEN conjunct1]
    by simp
  have chain: "Suc 0 < length (afterCallbacks gate_after_coalesce) \<and> nullish (\<rho> 0) \<and>
      (\<forall>i<Suc 0. nullish (\<rho> (Suc i)) \<and>
         (afterCallbacks gate_after_coalesce ! i) VUndefined ''y'' (\<rho> i) (\<sigma> i)
           = (Inr (\<rho> (Suc i)), \<sigma> (Suc i))) \<and>
      (afterCallbacks gate_after_coalesce ! Suc 0) VUndefined ''y'' (\<rho> (Suc 0)) (\<sigma> (Suc 0))
        = (Inr (OBool True), \<lparr>args = [], world = [''a1'', ''a2'']\<rparr>) \<and>
      \<not> nullish (OBool True)"
    by (simp add: ac \<rho>_def \<sigma>_def log_after_def start_def)
  have r2: "callAfterCallbacks gate_after_coalesce VUndefined ''y'' (\<rho> 0) (\<sigma> 0)
              = (Inr (OBool True), \<lparr>args = [], world = [''a1'', ''a2'']\<rparr>)"
    using after_hooks_coalesce
            [where g = gate_after_coalesce and u = VUndefined and a = "''y''" and k = "Suc 0"
               and \<rho> = \<rho> and \<sigma> = \<sigma> and v = "OBool True"
               and s' = "\<lparr>args = [], world = [''a1'', ''a2'']\<rparr>",
             THEN conjunct2, THEN conjunct1]
      chain
    by blast
  have primary: "raw (gate_after_idle\<lparr>afterCallbacks := []\<rparr>) VUndefined ''x'' (start [])
                   = (Inr (OBool True), \<lparr>args = [], world = [''x'']\<rparr>) \<and>
                 \<not> nullish (OBool True)"
    by (simp add: gate_after_idle_def after_def define_ability_def empty_gate_def start_def
        raw_def Let_def callBeforeCallbacks_def callAfterCallbacks_def callAuthCallback_def
        resolveAuthCallback_def await_def return_def call_def log_ability_def)
  have r3: "raw gate_after_idle VUndefined ''x'' (start [])
              = (Inr (OBool True), \<lparr>args = [], world = [''x'']\<rparr>)"
    using after_hooks_coalesce
            [where g = gate_after_idle and ctx = VUndefined and a = "''x''" and ?s0.0 = "start []"
               and ?v0.0 = "OBool True" and s0' = "\<lparr>args = [], world = [''x'']\<rparr>",
             THEN conjunct2, THEN conjunct2]
      primary
    by blast
  from r1 r2 r3 show ?thesis
    by (simp add: \<rho>_def \<sigma>_def)
qed

section \<open>Properties of \<open>authorize\<close> and the queries\<close>

lemma authorize_of_inspect:
  "inspect g ctx a s = (Inr r, s') \<Longrightarrow> authorize g ctx a s = (response_authorize r, s')"
  by (simp add: authorize_def await_def)

lemma response_authorize_denied:
  assumes "denied r"
  shows "\<exists>e. response_authorize r = Inl e \<and> is_denial e \<and> getResponse e = Some r \<and>
             (\<forall>st. status r = Some st \<and> st \<noteq> 0 \<longrightarrow> getStatus e = Some st) \<and>
             (status r = None \<or> status r = Some 0 \<longrightarrow> getStatus e = Some 403)"
  using assms by (cases "status r") (auto simp: response_authorize_def)

lemma response_authorize_allowed: "\<not> denied r \<Longrightarrow> response_authorize r = Inr r"
  by (simp add: response_authorize_def)

lemma before_loop_returns:
  "\<forall>b\<in>set bs. \<forall>s. \<exists>r s'. b u a s = (Inr r, s') \<Longrightarrow> \<exists>r s'. before_loop bs u a s = (Inr r, s')"
proof (induction bs arbitrary: s)
  case Nil
  show ?case by (simp add: return_def)
next
  case (Cons b bs)
  from Cons.prems obtain r s1 where b: "b u a s = (Inr r, s1)"
    by (meson list.set_intros(1))
  from Cons.prems have "\<forall>b\<in>set bs. \<forall>s. \<exists>r s'. b u a s = (Inr r, s')"
    by simp
  from Cons.IH [OF this] obtain r' s2 where "before_loop bs u a s1 = (Inr r', s2)"
    by blast
  with b show ?case
    by (simp add: await_def return_def)
qed

lemma after_loop_returns:
  "\<forall>h\<in>set hs. \<forall>r0 s. \<exists>r s'. h u a r0 s = (Inr r, s') \<Longrightarrow>
   \<exists>r s'. after_loop hs u a r0 s = (Inr r, s')"
proof (induction hs arbitrary: r0 s)
  case Nil
  show ?case by (simp add: return_def)
next
  case (Cons h hs)
  from Cons.prems obtain r s1 where h: "h u a r0 s = (Inr r, s1)"
    by (meson list.set_intros(1))
  from Cons.prems have rest: "\<forall>h\<in>set hs. \<forall>r0 s. \<exists>r s'. h u a r0 s = (Inr r, s')"
    by simp
  from Cons.IH [OF rest] obtain r' s2 where "after_loop hs u a r s1 = (Inr r', s2)"
    by blast
  moreover from Cons.IH [OF rest] obtain r'' s3 where "after_loop hs u a r0 s = (Inr r'', s3)"
    by blast
  ultimately show ?case
    using h by (simp add: await_def)
qed

lemma call_returns:
  "\<forall>w. \<exists>r w'. f u xs w = (Inr r, w') \<Longrightarrow> \<exists>r s'. call f u xs s = (Inr r, s')"
proof -
  assume "\<forall>w. \<exists>r w'. f u xs w = (Inr r, w')"
  then obtain r w' where "f u xs (world s) = (Inr r, w')" by blast
  then show ?thesis by (simp add: call_def)
qed

lemma policies_scan_in_set: "policies_scan ps v = Some p \<Longrightarrow> p \<in> snd ` set ps"
  by (induction ps) (auto split: if_splits)

lemma policies_get_in_set: "policies_get ps v = Some p \<Longrightarrow> p \<in> snd ` set ps"
  by (cases v) (force dest: map_of_SomeD)+

lemma getPolicyFor_in_set: "getPolicyFor ps v = Inr (Some p) \<Longrightarrow> p \<in> snd ` set ps"
  by (auto simp: getPolicyFor_def split: sum.splits option.splits if_splits
      dest: policies_scan_in_set policies_get_in_set)

lemma callPolicyBefore_returns:
  assumes "\<forall>name m. p name = Some (Method m) \<longrightarrow> (\<forall>u xs w. \<exists>r w'. m u xs w = (Inr r, w'))"
  shows "\<exists>r s'. callPolicyBefore p u a s = (Inr r, s')"
proof (cases "p ''before''")
  case None
  then show ?thesis by (simp add: callPolicyBefore_def)
next
  case (Some q)
  show ?thesis
  proof (cases q)
    case (Method bf)
    with Some assms have "\<forall>w. \<exists>r w'. bf u (VStr a # args s) w = (Inr r, w')"
      by blast
    with call_returns [of bf u "VStr a # args s" s] Some Method show ?thesis
      by (simp add: callPolicyBefore_def)
  next
    case (Field x)
    with Some show ?thesis by (simp add: callPolicyBefore_def)
  qed
qed

lemma callPolicyMethod_returns:
  assumes "\<forall>name m. p name = Some (Method m) \<longrightarrow> (\<forall>u xs w. \<exists>r w'. m u xs w = (Inr r, w'))"
    and "p method = Some (Method m)"
  shows "\<exists>r s'. callPolicyMethod p method u s = (Inr r, s')"
proof -
  define s1 where "s1 = (if typeof (arg0 (args s)) = ''function'' then shift s else s)"
  from assms have "\<forall>w. \<exists>r w'. m u (args s1) w = (Inr r, w')"
    by blast
  with call_returns [of m u "args s1" s1] obtain r s' where "call m u (args s1) s1 = (Inr r, s')"
    by blast
  with assms(2) show ?thesis
    by (simp add: callPolicyMethod_def Let_def s1_def)
qed

lemma resolvePolicyCallback_returns:
  assumes pm: "\<forall>name m. p name = Some (Method m) \<longrightarrow> (\<forall>u xs w. \<exists>r w'. m u xs w = (Inr r, w'))"
    and cb: "resolvePolicyCallback u a p = Some cb"
  shows "\<exists>r s'. cb s = (Inr r, s')"
proof -
  from cb obtain m where m: "p (formatAbilityToMethod a) = Some (Method m)"
    and cb_eq: "cb = await (callPolicyBefore p u a)
                       (\<lambda>r. if nullish r then callPolicyMethod p (formatAbilityToMethod a) u
                             else return r)"
    by (auto simp: resolvePolicyCallback_def Let_def split: option.splits property.splits)
  from callPolicyBefore_returns [OF pm] obtain r s1
    where b: "callPolicyBefore p u a s = (Inr r, s1)"
    by blast
  from callPolicyMethod_returns [OF pm m] obtain r' s2
    where "callPolicyMethod p (formatAbilityToMethod a) u s1 = (Inr r', s2)"
    by blast
  with b show ?thesis
    by (simp add: cb_eq await_def return_def)
qed

lemma callAuthCallback_returns:
  assumes "callbacks_return g"
  shows "\<exists>r s'. callAuthCallback g u a s = (Inr r, s')"
proof -
  have global: "\<exists>r s'. (case abilities g a of
                           Some callback \<Rightarrow> call callback u (args s) s
                         | None \<Rightarrow> return ONull s) = (Inr r, s')"
  proof (cases "abilities g a")
    case None
    then show ?thesis by (simp add: return_def)
  next
    case (Some cb)
    with assms have "\<forall>w. \<exists>r w'. cb u (args s) w = (Inr r, w')"
      by (simp add: callbacks_return_def)
    with call_returns [of cb u "args s" s] Some show ?thesis by simp
  qed
  have global_eq: "(case (case abilities g a of
                      Some callback \<Rightarrow> Inr (call callback)
                    | None \<Rightarrow> Inr (\<lambda>u xs. return ONull)) of
                     Inl e \<Rightarrow> (Inl e, s)
                   | Inr callback \<Rightarrow> callback u (args s) s)
                  = (case abilities g a of
                       Some callback \<Rightarrow> call callback u (args s) s
                     | None \<Rightarrow> return ONull s)"
    by (simp split: option.splits)
  show ?thesis
  proof (cases "truthy (arg0 (args s))")
    case False
    with global global_eq show ?thesis
      by (simp add: callAuthCallback_def resolveAuthCallback_def Let_def)
  next
    case True
    from getPolicyFor_truthy [OF True] obtain po
      where po: "getPolicyFor (policies g) (arg0 (args s)) = Inr po"
      by blast
    show ?thesis
    proof (cases po)
      case None
      with True po global global_eq show ?thesis
        by (simp add: callAuthCallback_def resolveAuthCallback_def Let_def)
    next
      case (Some p)
      with po have "p \<in> snd ` set (policies g)"
        by (simp add: getPolicyFor_in_set)
      with assms
      have pm: "\<forall>name m. p name = Some (Method m) \<longrightarrow> (\<forall>u xs w. \<exists>r w'. m u xs w = (Inr r, w'))"
        unfolding callbacks_return_def by blast
      show ?thesis
      proof (cases "resolvePolicyCallback u a p")
        case None
        with True po Some global global_eq show ?thesis
          by (simp add: callAuthCallback_def resolveAuthCallback_def Let_def)
      next
        case (Some cb)
        from resolvePolicyCallback_returns [OF pm Some] obtain r s' where "cb s = (Inr r, s')"
          by blast
        with True po \<open>po = Some p\<close> Some show ?thesis
          by (simp add: callAuthCallback_def resolveAuthCallback_def Let_def)
      qed
    qed
  qed
qed

lemma raw_returns:
  assumes "callbacks_return g"
  shows "\<exists>r s'. raw g ctx a s = (Inr r, s')"
proof -
  from assms have "\<forall>b\<in>set (beforeCallbacks g). \<forall>s. \<exists>r s'. b (resolveUser ctx) a s = (Inr r, s')"
    by (simp add: callbacks_return_def)
  from before_loop_returns [OF this] obtain r1 s1
    where b: "callBeforeCallbacks g (resolveUser ctx) a s = (Inr r1, s1)"
    unfolding callBeforeCallbacks_def by blast
  from callAuthCallback_returns [OF assms] obtain r2 s2
    where c: "callAuthCallback g (resolveUser ctx) a s1 = (Inr r2, s2)"
    by blast
  from assms
  have hs: "\<forall>h\<in>set (afterCallbacks g). \<forall>r0 s. \<exists>r s'. h (resolveUser ctx) a r0 s = (Inr r, s')"
    by (simp add: callbacks_return_def)
  from after_loop_returns [OF hs] obtain r3 s3
    where "callAfterCallbacks g (resolveUser ctx) a r1 s1 = (Inr r3, s3)"
    unfolding callAfterCallbacks_def by blast
  moreover from after_loop_returns [OF hs] obtain r4 s4
    where "callAfterCallbacks g (resolveUser ctx) a r2 s2 = (Inr r4, s4)"
    unfolding callAfterCallbacks_def by blast
  ultimately show ?thesis
    using b c by (simp add: raw_def Let_def await_def return_def)
qed

lemma inspect_returns:
  assumes "callbacks_return g"
  shows "\<exists>r s'. inspect g ctx a s = (Inr r, s')"
proof -
  from raw_returns [OF assms] obtain v s' where "raw g ctx a s = (Inr v, s')"
    by blast
  from inspect_of_raw [OF this] show ?thesis
    by blast
qed

lemma check_loop_returns:
  assumes "callbacks_return g"
  shows "\<exists>b s'. check_loop as g ctx s = (Inr b, s')"
proof (induction as arbitrary: s)
  case Nil
  show ?case by (auto simp: return_def)
next
  case (Cons a as)
  from inspect_returns [OF assms] obtain r s1 where i: "inspect g ctx a s = (Inr r, s1)"
    by blast
  from Cons.IH obtain b s2 where "check_loop as g ctx s1 = (Inr b, s2)"
    by blast
  with i show ?case
    by (auto simp: await_def return_def)
qed

lemma any_loop_returns:
  assumes "callbacks_return g"
  shows "\<exists>b s'. any_loop as g ctx s = (Inr b, s')"
proof (induction as arbitrary: s)
  case Nil
  show ?case by (auto simp: return_def)
next
  case (Cons a as)
  from inspect_returns [OF assms] obtain r s1 where i: "inspect g ctx a s = (Inr r, s1)"
    by blast
  from Cons.IH obtain b s2 where "any_loop as g ctx s1 = (Inr b, s2)"
    by blast
  with i show ?case
    by (auto simp: await_def return_def)
qed

text \<open>
  C6, as the claim states it, fails on a status of \<open>0\<close>: the status is set on the
  denying response, and the exception \<open>authorize\<close> throws is the default one, whose
  status is 403.
\<close>

theorem authorize_status_zero_counterexample:
  "authorize gate_statuses VUndefined ''z'' (start [])
     = (Inl (ForbiddenException (denyWithStatus 0 None VNull)), \<lparr>args = [], world = [''z'']\<rparr>) \<and>
   denied (denyWithStatus 0 None VNull) \<and>
   status (denyWithStatus 0 None VNull) = Some 0 \<and>
   getStatus (ForbiddenException (denyWithStatus 0 None VNull)) = Some 403"
  by (simp add: authorize_def inspect_def raw_def Let_def callBeforeCallbacks_def
      callAfterCallbacks_def callAuthCallback_def resolveAuthCallback_def await_def return_def
      call_def log_ability_def gate_statuses_def define_ability_def empty_gate_def start_def
      response_authorize_def denied_def denyWithStatus_def withStatus_def deny_def)

text \<open>
  C6, amended. When a check ends with a response, \<open>authorize\<close> throws a denial
  exception exactly when the response is denied. The exception carries the response,
  and its status is the status set on the response when that status is not \<open>0\<close>,
  and 403 when no status or a status of \<open>0\<close> was set. An allowed response is
  returned as it is. When no callback throws, \<open>raw\<close>, \<open>inspect\<close>, \<open>check\<close>,
  \<open>allows\<close>, \<open>denies\<close>, \<open>any\<close> and \<open>none\<close> return a value; and whatever
  outcome \<open>raw\<close> gives for an ability, allowing or denying, the other queries on
  that ability return the matching response or boolean.
\<close>

theorem authorize_raises_iff_denied:
  "(inspect g ctx a s = (Inr r, s') \<longrightarrow>
      ((\<exists>e. authorize g ctx a s = (Inl e, s') \<and> is_denial e) \<longleftrightarrow> denied r) \<and>
      (denied r \<longrightarrow>
         (\<exists>e. authorize g ctx a s = (Inl e, s') \<and> is_denial e \<and> getResponse e = Some r \<and>
              (\<forall>st. status r = Some st \<and> st \<noteq> 0 \<longrightarrow> getStatus e = Some st) \<and>
              (status r = None \<or> status r = Some 0 \<longrightarrow> getStatus e = Some 403))) \<and>
      (\<not> denied r \<longrightarrow> authorize g ctx a s = (Inr r, s'))) \<and>
   (callbacks_return g \<longrightarrow>
      (\<exists>v t. raw g ctx a s = (Inr v, t)) \<and>
      (\<exists>v t. inspect g ctx a s = (Inr v, t)) \<and>
      (\<exists>b t. check g ctx as s = (Inr b, t)) \<and>
      (\<exists>b t. allows g ctx as s = (Inr b, t)) \<and>
      (\<exists>b t. denies g ctx as s = (Inr b, t)) \<and>
      (\<exists>b t. any g ctx as s = (Inr b, t)) \<and>
      (\<exists>b t. none g ctx as s = (Inr b, t))) \<and>
   (raw g ctx a s = (Inr v, t) \<longrightarrow>
      (\<exists>r. inspect g ctx a s = (Inr r, t) \<and> allowed r = outcome_allows v) \<and>
      check g ctx (One a) s = (Inr (outcome_allows v), t) \<and>
      allows g ctx (One a) s = (Inr (outcome_allows v), t) \<and>
      denies g ctx (One a) s = (Inr (\<not> outcome_allows v), t) \<and>
      any g ctx (One a) s = (Inr (outcome_allows v), t) \<and>
      none g ctx (One a) s = (Inr (\<not> outcome_allows v), t))"
proof (intro conjI impI)
  assume i: "inspect g ctx a s = (Inr r, s')"
  show "(\<exists>e. authorize g ctx a s = (Inl e, s') \<and> is_denial e) \<longleftrightarrow> denied r"
  proof (cases "denied r")
    case True
    with response_authorize_denied [OF True] show ?thesis
      by (auto simp: authorize_of_inspect [OF i])
  next
    case False
    then show ?thesis
      by (simp add: authorize_of_inspect [OF i] response_authorize_allowed)
  qed
  show "\<exists>e. authorize g ctx a s = (Inl e, s') \<and> is_denial e \<and> getResponse e = Some r \<and>
            (\<forall>st. status r = Some st \<and> st \<noteq> 0 \<longrightarrow> getStatus e = Some st) \<and>
            (status r = None \<or> status r = Some 0 \<longrightarrow> getStatus e = Some 403)"
    if "denied r"
    using response_authorize_denied [OF that]
    by (simp add: authorize_of_inspect [OF i])
  show "authorize g ctx a s = (Inr r, s')" if "\<not> denied r"
    using that by (simp add: authorize_of_inspect [OF i] response_authorize_allowed)
next
  assume g: "callbacks_return g"
  show "\<exists>v t. raw g ctx a s = (Inr v, t)"
    by (rule raw_returns [OF g])
  show "\<exists>v t. inspect g ctx a s = (Inr v, t)"
    by (rule inspect_returns [OF g])
  from check_loop_returns [OF g, of "to_array as" ctx s]
  show c: "\<exists>b t. check g ctx as s = (Inr b, t)"
    by (simp add: check_def)
  then show al: "\<exists>b t. allows g ctx as s = (Inr b, t)"
    by (simp add: allows_def)
  then show "\<exists>b t. denies g ctx as s = (Inr b, t)"
    by (auto simp: denies_def await_def return_def)
  from any_loop_returns [OF g, of "to_array as" ctx s]
  show an: "\<exists>b t. any g ctx as s = (Inr b, t)"
    by (simp add: any_def)
  then show "\<exists>b t. none g ctx as s = (Inr b, t)"
    by (auto simp: none_def await_def return_def)
next
  assume "raw g ctx a s = (Inr v, t)"
  from inspect_allowed [OF this] obtain r
    where i: "inspect g ctx a s = (Inr r, t)" and al: "allowed r = outcome_allows v"
    by blast
  from i al show "\<exists>r. inspect g ctx a s = (Inr r, t) \<and> allowed r = outcome_allows v"
    by blast
  from check_One [OF i] al show c: "check g ctx (One a) s = (Inr (outcome_allows v), t)"
    by simp
  then show al': "allows g ctx (One a) s = (Inr (outcome_allows v), t)"
    by (simp add: allows_def)
  then show "denies g ctx (One a) s = (Inr (\<not> outcome_allows v), t)"
    by (simp add: denies_def await_def return_def)
  from any_One [OF i] al show an: "any g ctx (One a) s = (Inr (outcome_allows v), t)"
    by simp
  then show "none g ctx (One a) s = (Inr (\<not> outcome_allows v), t)"
    by (simp add: none_def await_def return_def)
qed

theorem authorize_raises_iff_denied_witness:
  "(\<exists>e. authorize gate_statuses VUndefined ''x'' (start [])
           = (Inl e, \<lparr>args = [], world = [''x'']\<rparr>) \<and>
        is_denial e \<and> getResponse e = Some (denyAsNotFound None VNull) \<and>
        getStatus e = Some 404) \<and>
   authorize gate_statuses VUndefined ''ok'' (start [])
     = (Inr (allow None VNull), \<lparr>args = [], world = [''ok'']\<rparr>) \<and>
   callbacks_return gate_statuses \<and>
   (\<exists>b t. check gate_statuses VUndefined (Many [''ok'', ''x'']) (start []) = (Inr b, t)) \<and>
   (\<exists>b t. none gate_statuses VUndefined (Many [''x'', ''z'']) (start []) = (Inr b, t)) \<and>
   denies gate_statuses VUndefined (One ''z'') (start [])
     = (Inr True, \<lparr>args = [], world = [''z'']\<rparr>)"
proof -
  have ix: "inspect gate_statuses VUndefined ''x'' (start [])
              = (Inr (denyAsNotFound None VNull), \<lparr>args = [], world = [''x'']\<rparr>)"
    by (simp add: inspect_def raw_def Let_def callBeforeCallbacks_def
        callAfterCallbacks_def callAuthCallback_def resolveAuthCallback_def await_def return_def
        call_def log_ability_def gate_statuses_def define_ability_def empty_gate_def start_def)
  have dx: "denied (denyAsNotFound None VNull)"
    "status (denyAsNotFound None VNull) = Some 404 \<and> (404::int) \<noteq> 0"
    by (simp_all add: denied_def denyAsNotFound_def denyWithStatus_def withStatus_def deny_def)
  have iok: "inspect gate_statuses VUndefined ''ok'' (start [])
               = (Inr (allow None VNull), \<lparr>args = [], world = [''ok'']\<rparr>)"
    by (simp add: inspect_def raw_def Let_def callBeforeCallbacks_def
        callAfterCallbacks_def callAuthCallback_def resolveAuthCallback_def await_def return_def
        call_def log_ability_def gate_statuses_def define_ability_def empty_gate_def start_def)
  have dok: "\<not> denied (allow None VNull)"
    by (simp add: denied_def allow_def)
  have cr: "callbacks_return gate_statuses"
    by (auto simp: callbacks_return_def gate_statuses_def define_ability_def empty_gate_def
        log_ability_def split: if_splits)
  have r1: "\<exists>e. authorize gate_statuses VUndefined ''x'' (start [])
                  = (Inl e, \<lparr>args = [], world = [''x'']\<rparr>) \<and>
               is_denial e \<and> getResponse e = Some (denyAsNotFound None VNull) \<and>
               getStatus e = Some 404"
    using authorize_raises_iff_denied
            [where g = gate_statuses and ctx = VUndefined and a = "''x''" and s = "start []"
               and r = "denyAsNotFound None VNull" and s' = "\<lparr>args = [], world = [''x'']\<rparr>",
             THEN conjunct1]
      ix dx
    by blast
  have r2: "authorize gate_statuses VUndefined ''ok'' (start [])
              = (Inr (allow None VNull), \<lparr>args = [], world = [''ok'']\<rparr>)"
    using authorize_raises_iff_denied
            [where g = gate_statuses and ctx = VUndefined and a = "''ok''" and s = "start []"
               and r = "allow None VNull" and s' = "\<lparr>args = [], world = [''ok'']\<rparr>",
             THEN conjunct1]
      iok dok
    by blast
  have r3: "\<exists>b t. check gate_statuses VUndefined (Many [''ok'', ''x'']) (start []) = (Inr b, t)"
    using authorize_raises_iff_denied
            [where g = gate_statuses and ctx = VUndefined and s = "start []"
               and as = "Many [''ok'', ''x'']", THEN conjunct2, THEN conjunct1]
      cr
    by blast
  have r4: "\<exists>b t. none gate_statuses VUndefined (Many [''x'', ''z'']) (start []) = (Inr b, t)"
    using authorize_raises_iff_denied
            [where g = gate_statuses and ctx = VUndefined and s = "start []"
               and as = "Many [''x'', ''z'']", THEN conjunct2, THEN conjunct1]
      cr
    by blast
  have rz: "raw gate_statuses VUndefined ''z'' (start [])
              = (Inr (OResponse (denyWithStatus 0 None VNull)), \<lparr>args = [], world = [''z'']\<rparr>)"
    by (simp add: raw_def Let_def callBeforeCallbacks_def
        callAfterCallbacks_def callAuthCallback_def resolveAuthCallback_def await_def return_def
        call_def log_ability_def gate_statuses_def define_ability_def empty_gate_def start_def)
  have r5: "denies gate_statuses VUndefined (One ''z'') (start [])
              = (Inr True, \<lparr>args = [], world = [''z'']\<rparr>)"
    using authorize_raises_iff_denied
            [where g = gate_statuses and ctx = VUndefined and a = "''z''" and s = "start []"
               and v = "OResponse (denyWithStatus 0 None VNull)"
               and t = "\<lparr>args = [], world = [''z'']\<rparr>",
             THEN conjunct2, THEN conjunct2]
      rz
    by (simp add: denyWithStatus_def withStatus_def deny_def)
  from r1 r2 cr r3 r4 r5 show ?thesis
    by blast
qed

section \<open>Properties of the resolution\<close>

lemma before_loop_all_null:
  "\<forall>i<length bs. \<exists>n. nullish n \<and> (bs ! i) u a (\<sigma> i) = (Inr n, \<sigma> (Suc i)) \<Longrightarrow>
   before_loop bs u a (\<sigma> 0) = (Inr ONull, \<sigma> (length bs))"
proof (induction bs arbitrary: \<sigma>)
  case Nil
  show ?case by (simp add: return_def)
next
  case (Cons b bs)
  from Cons.prems obtain n where n: "nullish n" "b u a (\<sigma> 0) = (Inr n, \<sigma> (Suc 0))"
    by fastforce
  have "before_loop bs u a ((\<lambda>i. \<sigma> (Suc i)) 0) = (Inr ONull, (\<lambda>i. \<sigma> (Suc i)) (length bs))"
  proof (rule Cons.IH)
    show "\<forall>i<length bs. \<exists>n. nullish n \<and> (bs ! i) u a (\<sigma> (Suc i)) = (Inr n, \<sigma> (Suc (Suc i)))"
      using Cons.prems by fastforce
  qed
  with n show ?case
    by (auto simp: await_def return_def nullish_iff)
qed

lemma after_loop_all_null:
  "nullish (\<rho> 0) \<Longrightarrow>
   \<forall>i<length hs. nullish (\<rho> (Suc i)) \<and> (hs ! i) u a (\<rho> i) (\<tau> i) = (Inr (\<rho> (Suc i)), \<tau> (Suc i)) \<Longrightarrow>
   after_loop hs u a (\<rho> 0) (\<tau> 0) = (Inr (\<rho> (length hs)), \<tau> (length hs))"
proof (induction hs arbitrary: \<rho> \<tau>)
  case Nil
  show ?case by (simp add: return_def)
next
  case (Cons h hs)
  from Cons.prems(2)
  have step: "nullish (\<rho> (Suc 0))" "h u a (\<rho> 0) (\<tau> 0) = (Inr (\<rho> (Suc 0)), \<tau> (Suc 0))"
    by fastforce+
  have "after_loop hs u a ((\<lambda>i. \<rho> (Suc i)) 0) ((\<lambda>i. \<tau> (Suc i)) 0)
          = (Inr ((\<lambda>i. \<rho> (Suc i)) (length hs)), (\<lambda>i. \<tau> (Suc i)) (length hs))"
  proof (rule Cons.IH)
    show "nullish (\<rho> (Suc 0))" by (rule step(1))
    show "\<forall>i<length hs. nullish (\<rho> (Suc (Suc i))) \<and>
            (hs ! i) u a (\<rho> (Suc i)) (\<tau> (Suc i)) = (Inr (\<rho> (Suc (Suc i))), \<tau> (Suc (Suc i)))"
      using Cons.prems(2) by fastforce
  qed
  with step Cons.prems(1) show ?case
    by (simp add: await_def)
qed

lemma callAuthCallback_unresolved:
  assumes "abilities g a = None" and "\<not> policy_answers g a (arg0 (args s))"
  shows "callAuthCallback g u a s = (Inr ONull, s)"
proof (cases "truthy (arg0 (args s))")
  case False
  with assms(1) show ?thesis
    by (simp add: callAuthCallback_def resolveAuthCallback_def Let_def return_def)
next
  case True
  from getPolicyFor_truthy [OF True] obtain po
    where po: "getPolicyFor (policies g) (arg0 (args s)) = Inr po"
    by blast
  show ?thesis
  proof (cases po)
    case None
    with True po assms(1) show ?thesis
      by (simp add: callAuthCallback_def resolveAuthCallback_def Let_def return_def)
  next
    case (Some p)
    with True po assms(2) have "resolvePolicyCallback u a p = None"
      by (auto simp: policy_answers_def resolvePolicyCallback_def Let_def
          split: option.splits property.splits)
    with True po Some assms(1) show ?thesis
      by (simp add: callAuthCallback_def resolveAuthCallback_def Let_def return_def)
  qed
qed

text \<open>
  C3. An ability with no global callback and no policy method for the subject resolves
  to \<open>null\<close>. When every before-hook returns \<open>null\<close> or \<open>undefined\<close>
  (\<open>\<sigma> i\<close> is the store on which before-hook \<open>i\<close> starts) and every after-hook
  returns \<open>null\<close> or \<open>undefined\<close> (\<open>\<rho> i\<close> and \<open>\<tau> i\<close> are the result and the
  store on which after-hook \<open>i\<close> starts), \<open>raw\<close> returns the last of these results,
  which is \<open>null\<close> or \<open>undefined\<close>, and is \<open>null\<close> when the hooks returned
  \<open>null\<close>; \<open>check\<close> returns false; nothing is thrown.
\<close>

theorem unresolvable_ability_denies:
  assumes "abilities g a = None"
    and "\<forall>i<length (beforeCallbacks g). \<exists>n. nullish n \<and>
           (beforeCallbacks g ! i) (resolveUser ctx) a (\<sigma> i) = (Inr n, \<sigma> (Suc i))"
    and "\<not> policy_answers g a (arg0 (args (\<sigma> (length (beforeCallbacks g)))))"
    and "\<rho> 0 = ONull" and "\<tau> 0 = \<sigma> (length (beforeCallbacks g))"
    and "\<forall>i<length (afterCallbacks g). nullish (\<rho> (Suc i)) \<and>
           (afterCallbacks g ! i) (resolveUser ctx) a (\<rho> i) (\<tau> i) = (Inr (\<rho> (Suc i)), \<tau> (Suc i))"
  shows "raw g ctx a (\<sigma> 0) = (Inr (\<rho> (length (afterCallbacks g))), \<tau> (length (afterCallbacks g))) \<and>
         nullish (\<rho> (length (afterCallbacks g))) \<and>
         ((\<forall>i<length (afterCallbacks g). \<rho> (Suc i) = ONull) \<longrightarrow>
            raw g ctx a (\<sigma> 0) = (Inr ONull, \<tau> (length (afterCallbacks g)))) \<and>
         check g ctx (Many [a]) (\<sigma> 0) = (Inr False, \<tau> (length (afterCallbacks g))) \<and>
         check g ctx (One a) (\<sigma> 0) = (Inr False, \<tau> (length (afterCallbacks g)))"
proof -
  let ?u = "resolveUser ctx"
  let ?L = "length (afterCallbacks g)"
  have b: "callBeforeCallbacks g ?u a (\<sigma> 0) = (Inr ONull, \<tau> 0)"
    using before_loop_all_null [OF assms(2)] assms(5)
    by (simp add: callBeforeCallbacks_def)
  have c: "callAuthCallback g ?u a (\<tau> 0) = (Inr ONull, \<tau> 0)"
    using assms(1,3,5) by (simp add: callAuthCallback_unresolved)
  have "nullish (\<rho> 0)"
    using assms(4) by simp
  from after_loop_all_null [OF this assms(6)]
  have h: "callAfterCallbacks g ?u a ONull (\<tau> 0) = (Inr (\<rho> ?L), \<tau> ?L)"
    using assms(4) by (simp add: callAfterCallbacks_def)
  from b c h have r: "raw g ctx a (\<sigma> 0) = (Inr (\<rho> ?L), \<tau> ?L)"
    by (simp add: raw_def Let_def await_def return_def)
  have n: "nullish (\<rho> ?L)"
  proof (cases ?L)
    case 0
    with assms(4) show ?thesis by simp
  next
    case (Suc j)
    with assms(6) show ?thesis by simp
  qed
  have strict: "\<rho> ?L = ONull" if "\<forall>i<?L. \<rho> (Suc i) = ONull"
  proof (cases ?L)
    case 0
    with assms(4) show ?thesis by simp
  next
    case (Suc j)
    with that show ?thesis by simp
  qed
  from inspect_of_raw [OF r] n
  have i: "inspect g ctx a (\<sigma> 0) = (Inr (deny None VNull), \<tau> ?L)"
    by (auto simp: nullish_iff)
  then have c1: "check g ctx (One a) (\<sigma> 0) = (Inr False, \<tau> ?L)"
    by (simp add: check_One deny_def)
  from i have c2: "check g ctx (Many [a]) (\<sigma> 0) = (Inr False, \<tau> ?L)"
    by (simp add: check_def await_def return_def deny_def)
  from r n strict c1 c2 show ?thesis
    by simp
qed

theorem unresolvable_ability_denies_witness:
  "raw gate_quiet_hooks VUndefined ''label'' (start [VObj Derived])
     = (Inr OUndefined, \<lparr>args = [VObj Derived], world = [''b1'', ''a1'', ''a2'']\<rparr>) \<and>
   check gate_quiet_hooks VUndefined (Many [''label'']) (start [VObj Derived])
     = (Inr False, \<lparr>args = [VObj Derived], world = [''b1'', ''a1'', ''a2'']\<rparr>) \<and>
   raw gate_null_hooks VUndefined ''label'' (start [VObj Derived])
     = (Inr ONull, \<lparr>args = [VObj Derived], world = [''b1'', ''a1'']\<rparr>) \<and>
   check gate_null_hooks VUndefined (One ''label'') (start [VObj Derived])
     = (Inr False, \<lparr>args = [VObj Derived], world = [''b1'', ''a1'']\<rparr>)"
proof -
  define \<sigma> :: "nat \<Rightarrow> string list st"
    where "\<sigma> i = \<lparr>args = [VObj Derived], world = take i [''b1'']\<rparr>" for i
  define \<rho> :: "nat \<Rightarrow> outcome" where "\<rho> i = (if i < 2 then ONull else OUndefined)" for i
  define \<tau> :: "nat \<Rightarrow> string list st"
    where "\<tau> i = \<lparr>args = [VObj Derived], world = ''b1'' # take i [''a1'', ''a2'']\<rparr>" for i
  have no_policy: "\<not> policy_answers g ''label'' (arg0 (args (\<sigma> i)))"
    if "policies g = [(Base, BasePolicy)]" for g :: "string list GateService" and i
    using that
    by (simp add: policy_answers_def \<sigma>_def getPolicyFor_def Base_def Derived_def
        BasePolicy_def formatAbilityToMethod_def formatAbilityToMethod_rt_def
        str_includes_def ascii_def)
  have quiet: "abilities gate_quiet_hooks ''label'' = None"
    "policies gate_quiet_hooks = [(Base, BasePolicy)]"
    "beforeCallbacks gate_quiet_hooks = [log_before ''b1'' ONull]"
    "afterCallbacks gate_quiet_hooks = [log_after ''a1'' ONull, log_after ''a2'' OUndefined]"
    by (simp_all add: gate_quiet_hooks_def after_def before_def define_ability_def
        onApplicationBootstrap_def empty_gate_def)
  have null: "abilities gate_null_hooks ''label'' = None"
    "policies gate_null_hooks = [(Base, BasePolicy)]"
    "beforeCallbacks gate_null_hooks = [log_before ''b1'' ONull]"
    "afterCallbacks gate_null_hooks = [log_after ''a1'' ONull]"
    by (simp_all add: gate_null_hooks_def after_def before_def define_ability_def
        onApplicationBootstrap_def empty_gate_def)
  have q2: "\<forall>i<length (beforeCallbacks gate_quiet_hooks). \<exists>n. nullish n \<and>
              (beforeCallbacks gate_quiet_hooks ! i) (resolveUser VUndefined) ''label'' (\<sigma> i)
                = (Inr n, \<sigma> (Suc i))"
    by (simp add: quiet \<sigma>_def log_before_def)
  have q3: "\<not> policy_answers gate_quiet_hooks ''label''
               (arg0 (args (\<sigma> (length (beforeCallbacks gate_quiet_hooks)))))"
    by (rule no_policy) (rule quiet)
  have q4: "\<rho> 0 = ONull"
    by (simp add: \<rho>_def)
  have q5: "\<tau> 0 = \<sigma> (length (beforeCallbacks gate_quiet_hooks))"
    by (simp add: quiet \<sigma>_def \<tau>_def)
  have q6: "\<forall>i<length (afterCallbacks gate_quiet_hooks). nullish (\<rho> (Suc i)) \<and>
              (afterCallbacks gate_quiet_hooks ! i) (resolveUser VUndefined) ''label'' (\<rho> i) (\<tau> i)
                = (Inr (\<rho> (Suc i)), \<tau> (Suc i))"
    by (auto simp: quiet \<rho>_def \<tau>_def log_after_def less_Suc_eq)
  from unresolvable_ability_denies [OF quiet(1) q2 q3 q4 q5 q6]
  have r1: "raw gate_quiet_hooks VUndefined ''label'' (start [VObj Derived])
              = (Inr OUndefined, \<lparr>args = [VObj Derived], world = [''b1'', ''a1'', ''a2'']\<rparr>)"
    and r2: "check gate_quiet_hooks VUndefined (Many [''label'']) (start [VObj Derived])
              = (Inr False, \<lparr>args = [VObj Derived], world = [''b1'', ''a1'', ''a2'']\<rparr>)"
    by (simp_all add: quiet \<sigma>_def \<rho>_def \<tau>_def start_def)
  define \<rho>' :: "nat \<Rightarrow> outcome" where "\<rho>' i = ONull" for i
  have n2: "\<forall>i<length (beforeCallbacks gate_null_hooks). \<exists>n. nullish n \<and>
              (beforeCallbacks gate_null_hooks ! i) (resolveUser VUndefined) ''label'' (\<sigma> i)
                = (Inr n, \<sigma> (Suc i))"
    by (simp add: null \<sigma>_def log_before_def)
  have n3: "\<not> policy_answers gate_null_hooks ''label''
               (arg0 (args (\<sigma> (length (beforeCallbacks gate_null_hooks)))))"
    by (rule no_policy) (rule null)
  have n4: "\<rho>' 0 = ONull"
    by (simp add: \<rho>'_def)
  have n5: "\<tau> 0 = \<sigma> (length (beforeCallbacks gate_null_hooks))"
    by (simp add: null \<sigma>_def \<tau>_def)
  have n6: "\<forall>i<length (afterCallbacks gate_null_hooks). nullish (\<rho>' (Suc i)) \<and>
              (afterCallbacks gate_null_hooks ! i) (resolveUser VUndefined) ''label'' (\<rho>' i) (\<tau> i)
                = (Inr (\<rho>' (Suc i)), \<tau> (Suc i))"
    by (simp add: null \<rho>'_def \<tau>_def log_after_def)
  have n7: "\<forall>i<length (afterCallbacks gate_null_hooks). \<rho>' (Suc i) = ONull"
    by (simp add: \<rho>'_def)
  from unresolvable_ability_denies [OF null(1) n2 n3 n4 n5 n6] n7
  have r3: "raw gate_null_hooks VUndefined ''label'' (start [VObj Derived])
              = (Inr ONull, \<lparr>args = [VObj Derived], world = [''b1'', ''a1'']\<rparr>)"
    and r4: "check gate_null_hooks VUndefined (One ''label'') (start [VObj Derived])
              = (Inr False, \<lparr>args = [VObj Derived], world = [''b1'', ''a1'']\<rparr>)"
    by (simp_all add: null \<sigma>_def \<tau>_def start_def)
  from r1 r2 r3 r4 show ?thesis
    by blast
qed

lemma typeof_function: "typeof v = ''function'' \<longleftrightarrow> (\<exists>c. v = VClass c)"
  by (cases v) simp_all

lemma callPolicyMethod_method_call:
  "policy method = Some (Method m) \<Longrightarrow> callPolicyMethod policy method u s = method_call m u s"
  by (cases s; cases "arg0 (args s)")
     (simp_all add: callPolicyMethod_def method_call_def Let_def call_def shift_def
        split: prod.splits)

lemma callAuthCallback_policy:
  assumes "truthy (arg0 (args s))"
    and "getPolicyFor (policies g) (arg0 (args s)) = Inr (Some policy)"
    and "policy (formatAbilityToMethod a) = Some (Method m)"
  shows "callAuthCallback g u a s =
           await (callPolicyBefore policy u a)
             (\<lambda>r. if nullish r then method_call m u else return r) s"
proof -
  have "callPolicyMethod policy (formatAbilityToMethod a) u = method_call m u"
    using assms(3) by (intro ext) (rule callPolicyMethod_method_call)
  with assms show ?thesis
    by (simp add: callAuthCallback_def resolveAuthCallback_def resolvePolicyCallback_def Let_def
        cong: if_cong)
qed

text \<open>
  C5. Let the subject \<open>args[0]\<close> have a policy whose method for the ability is a
  function. When the policy has a \<open>before\<close> method and it returns a value, that value
  is the outcome of the callback stage, on the store \<open>before\<close> left: the ability
  method did not run. When the policy has no \<open>before\<close> method, or \<open>before\<close> returns
  \<open>null\<close> or \<open>undefined\<close>, the ability method is called with the user and the
  arguments, without the leading class reference when there is one.
\<close>

theorem policy_before_short_circuit:
  assumes "truthy (arg0 (args s))"
    and "getPolicyFor (policies g) (arg0 (args s)) = Inr (Some policy)"
    and "policy (formatAbilityToMethod a) = Some (Method m)"
  shows "(\<forall>bf v w'. policy ''before'' = Some (Method bf) \<and>
                    bf u (VStr a # args s) (world s) = (Inr v, w') \<and> \<not> nullish v \<longrightarrow>
            callAuthCallback g u a s = (Inr v, s\<lparr>world := w'\<rparr>)) \<and>
         ((\<forall>bf. policy ''before'' \<noteq> Some (Method bf)) \<longrightarrow>
            callAuthCallback g u a s = method_call m u s) \<and>
         (\<forall>bf n w'. policy ''before'' = Some (Method bf) \<and>
                    bf u (VStr a # args s) (world s) = (Inr n, w') \<and> nullish n \<longrightarrow>
            callAuthCallback g u a s = method_call m u (s\<lparr>world := w'\<rparr>))"
proof (intro conjI allI impI)
  fix bf v w'
  assume "policy ''before'' = Some (Method bf) \<and>
          bf u (VStr a # args s) (world s) = (Inr v, w') \<and> \<not> nullish v"
  then show "callAuthCallback g u a s = (Inr v, s\<lparr>world := w'\<rparr>)"
    by (simp add: callAuthCallback_policy [OF assms] callPolicyBefore_def call_def
        await_def return_def)
next
  assume none: "\<forall>bf. policy ''before'' \<noteq> Some (Method bf)"
  have "callPolicyBefore policy u a s = (Inr OUndefined, s)"
  proof (cases "policy ''before''")
    case None
    then show ?thesis by (simp add: callPolicyBefore_def)
  next
    case (Some q)
    with none show ?thesis
      by (cases q) (simp_all add: callPolicyBefore_def)
  qed
  then show "callAuthCallback g u a s = method_call m u s"
    by (simp add: callAuthCallback_policy [OF assms] await_def)
next
  fix bf n w'
  assume "policy ''before'' = Some (Method bf) \<and>
          bf u (VStr a # args s) (world s) = (Inr n, w') \<and> nullish n"
  then show "callAuthCallback g u a s = method_call m u (s\<lparr>world := w'\<rparr>)"
    by (simp add: callAuthCallback_policy [OF assms] callPolicyBefore_def call_def await_def)
qed

lemma format_create_post: "formatAbilityToMethod ''create-post'' = ''createPost''"
  by code_simp

lemma format_delete_post: "formatAbilityToMethod ''delete-post'' = ''deletePost''"
  by code_simp

lemma policies_gate_policy: "policies (gate_policy P) = [(Base, P)]"
  by (simp add: gate_policy_def onApplicationBootstrap_def empty_gate_def)

lemma getPolicyFor_Base_examples:
  "getPolicyFor [(Base, P)] (VObj Derived) = Inr (Some P)"
  "getPolicyFor [(Base, P)] (VClass Derived) = Inr (Some P)"
  "getPolicyFor [(Base, P)] (VClass Base) = Inr (Some P)"
  by (simp_all add: getPolicyFor_def Base_def Derived_def)

theorem policy_before_short_circuit_witness:
  "callAuthCallback (gate_policy PolicyBeforeAllows) VUndefined ''create-post'' (start [VObj Derived])
     = (Inr (OBool True), \<lparr>args = [VObj Derived], world = [''BasePolicy.before'']\<rparr>) \<and>
   callAuthCallback (gate_policy BasePolicy) VUndefined ''create-post'' (start [VClass Base, VNum 1])
     = (Inr (OBool True), \<lparr>args = [VNum 1], world = [''BasePolicy.createPost'']\<rparr>) \<and>
   callAuthCallback (gate_policy PolicyBeforeNull) VUndefined ''create-post'' (start [VClass Derived])
     = (Inr (OBool True),
        \<lparr>args = [], world = [''BasePolicy.before'', ''BasePolicy.createPost'']\<rparr>)"
proof -
  let ?m = "log_ability ''BasePolicy.createPost'' (OBool True)"
  have a1: "truthy (arg0 (args (start [VObj Derived])))"
    and a2: "getPolicyFor (policies (gate_policy PolicyBeforeAllows))
               (arg0 (args (start [VObj Derived]))) = Inr (Some PolicyBeforeAllows)"
    and a3: "PolicyBeforeAllows (formatAbilityToMethod ''create-post'') = Some (Method ?m)"
    by (simp_all add: start_def policies_gate_policy getPolicyFor_Base_examples
        format_create_post PolicyBeforeAllows_def BasePolicy_def)
  have a4: "PolicyBeforeAllows ''before''
              = Some (Method (log_ability ''BasePolicy.before'' (OBool True))) \<and>
            log_ability ''BasePolicy.before'' (OBool True) VUndefined
              (VStr ''create-post'' # args (start [VObj Derived])) (world (start [VObj Derived]))
              = (Inr (OBool True), [''BasePolicy.before'']) \<and>
            \<not> nullish (OBool True)"
    by (simp add: PolicyBeforeAllows_def log_ability_def start_def)
  from policy_before_short_circuit [OF a1 a2 a3, of VUndefined, THEN conjunct1] a4
  have r1: "callAuthCallback (gate_policy PolicyBeforeAllows) VUndefined ''create-post''
              (start [VObj Derived])
            = (Inr (OBool True), (start [VObj Derived])\<lparr>world := [''BasePolicy.before'']\<rparr>)"
    by blast
  have b1: "truthy (arg0 (args (start [VClass Base, VNum 1])))"
    and b2: "getPolicyFor (policies (gate_policy BasePolicy))
               (arg0 (args (start [VClass Base, VNum 1]))) = Inr (Some BasePolicy)"
    and b3: "BasePolicy (formatAbilityToMethod ''create-post'') = Some (Method ?m)"
    by (simp_all add: start_def policies_gate_policy getPolicyFor_Base_examples
        format_create_post BasePolicy_def)
  have b4: "\<forall>bf. BasePolicy ''before'' \<noteq> Some (Method bf)"
    by (simp add: BasePolicy_def)
  from policy_before_short_circuit [OF b1 b2 b3, of VUndefined, THEN conjunct2, THEN conjunct1] b4
  have r2: "callAuthCallback (gate_policy BasePolicy) VUndefined ''create-post''
              (start [VClass Base, VNum 1])
            = method_call ?m VUndefined (start [VClass Base, VNum 1])"
    by blast
  have c1: "truthy (arg0 (args (start [VClass Derived])))"
    and c2: "getPolicyFor (policies (gate_policy PolicyBeforeNull))
               (arg0 (args (start [VClass Derived]))) = Inr (Some PolicyBeforeNull)"
    and c3: "PolicyBeforeNull (formatAbilityToMethod ''create-post'') = Some (Method ?m)"
    by (simp_all add: start_def policies_gate_policy getPolicyFor_Base_examples
        format_create_post PolicyBeforeNull_def BasePolicy_def)
  have c4: "PolicyBeforeNull ''before''
              = Some (Method (log_ability ''BasePolicy.before'' ONull)) \<and>
            log_ability ''BasePolicy.before'' ONull VUndefined
              (VStr ''create-post'' # args (start [VClass Derived])) (world (start [VClass Derived]))
              = (Inr ONull, [''BasePolicy.before'']) \<and>
            nullish ONull"
    by (simp add: PolicyBeforeNull_def log_ability_def start_def)
  from policy_before_short_circuit [OF c1 c2 c3, of VUndefined, THEN conjunct2, THEN conjunct2] c4
  have r3: "callAuthCallback (gate_policy PolicyBeforeNull) VUndefined ''create-post''
              (start [VClass Derived])
            = method_call ?m VUndefined ((start [VClass Derived])\<lparr>world := [''BasePolicy.before'']\<rparr>)"
    by blast
  from r1 r2 r3 show ?thesis
    by (simp add: start_def method_call_def log_ability_def)
qed

section \<open>The shared argument array\<close>

lemma callPolicyBefore_args:
  "callPolicyBefore policy u a s = (r, s') \<Longrightarrow> args s' = args s"
  by (auto simp: callPolicyBefore_def call_def split: option.splits property.splits prod.splits)

lemma check_Cons:
  "inspect g ctx a s = (Inr r, s') \<Longrightarrow>
   check g ctx (Many (a # as)) s =
     (if allowed r then check g ctx (Many as) s' else (Inr False, s'))"
  by (simp add: check_def await_def return_def)

lemma any_Cons:
  "inspect g ctx a s = (Inr r, s') \<Longrightarrow>
   any g ctx (Many (a # as)) s =
     (if allowed r then (Inr True, s') else any g ctx (Many as) s')"
  by (simp add: any_def await_def return_def)

text \<open>
  C10. When \<open>args[0]\<close> is a class reference, the call of a policy method removes it
  from the array itself: the method gets the remaining arguments and the store is left
  with the shortened array. So when the before-hooks give no value and leave the array
  \<open>c # rest\<close> with \<open>c\<close> a class that has a policy with the method, and the policy's
  \<open>before\<close> gives no value, \<open>raw\<close> continues with the after-hooks on the array
  \<open>rest\<close>; and when the method returns a value, \<open>raw\<close> ends on the array \<open>rest\<close>
  and \<open>check\<close> and \<open>any\<close> evaluate the abilities that follow on \<open>rest\<close>.
\<close>

theorem class_reference_shifted_in_place:
  "(args s0 = VClass c # rest \<and> policy name = Some (Method m) \<longrightarrow>
      callPolicyMethod policy name u s0 =
        (case m u rest (world s0) of (r, w') \<Rightarrow> (r, \<lparr>args = rest, world = w'\<rparr>))) \<and>
   (callBeforeCallbacks g (resolveUser ctx) a s = (Inr n, s1) \<and> nullish n \<and>
    args s1 = VClass c # rest \<and>
    getPolicyFor (policies g) (VClass c) = Inr (Some policy) \<and>
    policy (formatAbilityToMethod a) = Some (Method m) \<and>
    callPolicyBefore policy (resolveUser ctx) a s1 = (Inr n', s2) \<and> nullish n' \<and>
    m (resolveUser ctx) rest (world s2) = (Inr v, w3) \<longrightarrow>
      raw g ctx a s =
        callAfterCallbacks g (resolveUser ctx) a v \<lparr>args = rest, world = w3\<rparr> \<and>
      (\<not> nullish v \<longrightarrow>
         raw g ctx a s = (Inr v, \<lparr>args = rest, world = w3\<rparr>) \<and>
         check g ctx (Many (a # as)) s =
           (if outcome_allows v then check g ctx (Many as) \<lparr>args = rest, world = w3\<rparr>
            else (Inr False, \<lparr>args = rest, world = w3\<rparr>)) \<and>
         any g ctx (Many (a # as)) s =
           (if outcome_allows v then (Inr True, \<lparr>args = rest, world = w3\<rparr>)
            else any g ctx (Many as) \<lparr>args = rest, world = w3\<rparr>)))"
proof (intro conjI impI)
  assume "args s0 = VClass c # rest \<and> policy name = Some (Method m)"
  then show "callPolicyMethod policy name u s0 =
               (case m u rest (world s0) of (r, w') \<Rightarrow> (r, \<lparr>args = rest, world = w'\<rparr>))"
    by (simp add: callPolicyMethod_method_call method_call_def)
next
  let ?u = "resolveUser ctx"
  let ?t = "\<lparr>args = rest, world = w3\<rparr>"
  assume h: "callBeforeCallbacks g ?u a s = (Inr n, s1) \<and> nullish n \<and>
    args s1 = VClass c # rest \<and>
    getPolicyFor (policies g) (VClass c) = Inr (Some policy) \<and>
    policy (formatAbilityToMethod a) = Some (Method m) \<and>
    callPolicyBefore policy ?u a s1 = (Inr n', s2) \<and> nullish n' \<and>
    m ?u rest (world s2) = (Inr v, w3)"
  from h have args2: "args s2 = VClass c # rest"
    using callPolicyBefore_args [of policy ?u a s1 "Inr n'" s2] by simp
  have "callAuthCallback g ?u a s1 =
          await (callPolicyBefore policy ?u a)
            (\<lambda>r. if nullish r then method_call m ?u else return r) s1"
    by (rule callAuthCallback_policy) (use h in simp_all)
  with h args2 have auth: "callAuthCallback g ?u a s1 = (Inr v, ?t)"
    by (simp add: await_def method_call_def)
  with h show raw_eq: "raw g ctx a s = callAfterCallbacks g ?u a v ?t"
    by (simp add: raw_def Let_def await_def)
  assume v: "\<not> nullish v"
  with raw_eq show r: "raw g ctx a s = (Inr v, ?t)"
    by (simp add: callAfterCallbacks_def after_loop_value)
  from inspect_allowed [OF r] obtain resp
    where i: "inspect g ctx a s = (Inr resp, ?t)" and al: "allowed resp = outcome_allows v"
    by blast
  from check_Cons [OF i] al
  show "check g ctx (Many (a # as)) s =
          (if outcome_allows v then check g ctx (Many as) ?t else (Inr False, ?t))"
    by simp
  from any_Cons [OF i] al
  show "any g ctx (Many (a # as)) s =
          (if outcome_allows v then (Inr True, ?t) else any g ctx (Many as) ?t)"
    by simp
qed

theorem class_reference_shifted_in_place_witness:
  "callPolicyMethod BasePolicy ''createPost'' VUndefined (start [VClass Base, VNum 1])
     = (Inr (OBool True), \<lparr>args = [VNum 1], world = [''BasePolicy.createPost'']\<rparr>) \<and>
   raw (gate_policy BasePolicy) VUndefined ''create-post'' (start [VClass Base])
     = (Inr (OBool True), \<lparr>args = [], world = [''BasePolicy.createPost'']\<rparr>) \<and>
   check (gate_policy BasePolicy) VUndefined (Many [''create-post'', ''delete-post''])
       (start [VClass Base])
     = (Inr False, \<lparr>args = [], world = [''BasePolicy.createPost'']\<rparr>) \<and>
   check (gate_policy BasePolicy) VUndefined (Many [''delete-post'']) (start [VClass Base])
     = (Inr True, \<lparr>args = [], world = [''BasePolicy.deletePost'']\<rparr>) \<and>
   any (gate_policy BasePolicy) VUndefined (Many [''create-post'', ''delete-post''])
       (start [VClass Base])
     = (Inr True, \<lparr>args = [], world = [''BasePolicy.createPost'']\<rparr>)"
proof -
  let ?g = "gate_policy BasePolicy"
  let ?mc = "log_ability ''BasePolicy.createPost'' (OBool True)"
  let ?md = "log_ability ''BasePolicy.deletePost'' (OBool True)"
  have gate: "beforeCallbacks ?g = []" "afterCallbacks ?g = []" "abilities ?g = (\<lambda>a. None)"
    by (simp_all add: gate_policy_def onApplicationBootstrap_def empty_gate_def)
  have p1: "args (start [VClass Base, VNum 1]) = VClass Base # [VNum 1] \<and>
            BasePolicy ''createPost'' = Some (Method ?mc)"
    by (simp add: start_def BasePolicy_def)
  from class_reference_shifted_in_place
         [where ?s0.0 = "start [VClass Base, VNum 1]" and c = Base and rest = "[VNum 1]"
            and policy = BasePolicy and name = "''createPost''" and m = ?mc and u = VUndefined,
          THEN conjunct1] p1
  have r1: "callPolicyMethod BasePolicy ''createPost'' VUndefined (start [VClass Base, VNum 1])
              = (Inr (OBool True), \<lparr>args = [VNum 1], world = [''BasePolicy.createPost'']\<rparr>)"
    by (simp add: log_ability_def start_def)
  have run: "callBeforeCallbacks ?g (resolveUser VUndefined) a (start [VClass Base])
               = (Inr ONull, start [VClass Base]) \<and> nullish ONull \<and>
             args (start [VClass Base]) = VClass Base # [] \<and>
             getPolicyFor (policies ?g) (VClass Base) = Inr (Some BasePolicy) \<and>
             callPolicyBefore BasePolicy (resolveUser VUndefined) a (start [VClass Base])
               = (Inr OUndefined, start [VClass Base]) \<and> nullish OUndefined" for a
  proof -
    have "callBeforeCallbacks ?g (resolveUser VUndefined) a (start [VClass Base])
            = (Inr ONull, start [VClass Base])"
      by (simp add: callBeforeCallbacks_def gate return_def)
    moreover have "getPolicyFor (policies ?g) (VClass Base) = Inr (Some BasePolicy)"
      by (simp add: policies_gate_policy getPolicyFor_Base_examples)
    moreover have "callPolicyBefore BasePolicy (resolveUser VUndefined) a (start [VClass Base])
                     = (Inr OUndefined, start [VClass Base])"
      by (simp add: callPolicyBefore_def BasePolicy_def)
    ultimately show ?thesis
      by (simp add: start_def)
  qed
  have create: "BasePolicy (formatAbilityToMethod ''create-post'') = Some (Method ?mc) \<and>
                ?mc (resolveUser VUndefined) [] (world (start [VClass Base]))
                  = (Inr (OBool True), [''BasePolicy.createPost''])"
    by (simp add: format_create_post BasePolicy_def log_ability_def start_def)
  have delete: "BasePolicy (formatAbilityToMethod ''delete-post'') = Some (Method ?md) \<and>
                ?md (resolveUser VUndefined) [] (world (start [VClass Base]))
                  = (Inr (OBool True), [''BasePolicy.deletePost''])"
    by (simp add: format_delete_post BasePolicy_def log_ability_def start_def)
  have after_create: "check ?g VUndefined (Many [''delete-post''])
                        \<lparr>args = [], world = [''BasePolicy.createPost'']\<rparr>
                      = (Inr False, \<lparr>args = [], world = [''BasePolicy.createPost'']\<rparr>)"
    by (simp add: check_def inspect_def raw_def Let_def callBeforeCallbacks_def
        callAfterCallbacks_def callAuthCallback_def resolveAuthCallback_def gate
        await_def return_def deny_def)
  have no_more: "check ?g VUndefined (Many []) t = (Inr True, t)" for t
    by (simp add: check_def return_def)
  have hc: "callBeforeCallbacks ?g (resolveUser VUndefined) ''create-post'' (start [VClass Base])
              = (Inr ONull, start [VClass Base]) \<and> nullish ONull \<and>
            args (start [VClass Base]) = VClass Base # [] \<and>
            getPolicyFor (policies ?g) (VClass Base) = Inr (Some BasePolicy) \<and>
            BasePolicy (formatAbilityToMethod ''create-post'') = Some (Method ?mc) \<and>
            callPolicyBefore BasePolicy (resolveUser VUndefined) ''create-post''
              (start [VClass Base]) = (Inr OUndefined, start [VClass Base]) \<and>
            nullish OUndefined \<and>
            ?mc (resolveUser VUndefined) [] (world (start [VClass Base]))
              = (Inr (OBool True), [''BasePolicy.createPost''])"
    using run [of "''create-post''"] create by blast
  have hd: "callBeforeCallbacks ?g (resolveUser VUndefined) ''delete-post'' (start [VClass Base])
              = (Inr ONull, start [VClass Base]) \<and> nullish ONull \<and>
            args (start [VClass Base]) = VClass Base # [] \<and>
            getPolicyFor (policies ?g) (VClass Base) = Inr (Some BasePolicy) \<and>
            BasePolicy (formatAbilityToMethod ''delete-post'') = Some (Method ?md) \<and>
            callPolicyBefore BasePolicy (resolveUser VUndefined) ''delete-post''
              (start [VClass Base]) = (Inr OUndefined, start [VClass Base]) \<and>
            nullish OUndefined \<and>
            ?md (resolveUser VUndefined) [] (world (start [VClass Base]))
              = (Inr (OBool True), [''BasePolicy.deletePost''])"
    using run [of "''delete-post''"] delete by blast
  have nn: "\<not> nullish (OBool True)"
    by simp
  note c = class_reference_shifted_in_place
             [where g = ?g and ctx = VUndefined and a = "''create-post''"
                and as = "[''delete-post'']",
              THEN conjunct2, THEN mp, OF hc, THEN conjunct2, THEN mp, OF nn]
  note d = class_reference_shifted_in_place
             [where g = ?g and ctx = VUndefined and a = "''delete-post''"
                and as = "[]",
              THEN conjunct2, THEN mp, OF hd, THEN conjunct2, THEN mp, OF nn]
  from c have r2: "raw ?g VUndefined ''create-post'' (start [VClass Base])
              = (Inr (OBool True), \<lparr>args = [], world = [''BasePolicy.createPost'']\<rparr>)"
    and r3: "check ?g VUndefined (Many [''create-post'', ''delete-post'']) (start [VClass Base])
              = check ?g VUndefined (Many [''delete-post''])
                  \<lparr>args = [], world = [''BasePolicy.createPost'']\<rparr>"
    and r5: "any ?g VUndefined (Many [''create-post'', ''delete-post'']) (start [VClass Base])
              = (Inr True, \<lparr>args = [], world = [''BasePolicy.createPost'']\<rparr>)"
    by simp_all
  from d have r4: "check ?g VUndefined (Many [''delete-post'']) (start [VClass Base])
              = (Inr True, \<lparr>args = [], world = [''BasePolicy.deletePost'']\<rparr>)"
    by (simp add: no_more)
  from r1 r2 r3 r4 r5 after_create show ?thesis
    by simp
qed

end
